theory Spec2Isabelle
  imports Main "HOL-Library.Code_Target_Numeral"
begin

section \<open>Values of the host language\<close>

text \<open>
  The store of \<^verbatim>\<open>ocm_base_storage.js\<close> holds whatever values its callers hand over, so
  the model starts from the values themselves. A number is an integer, \<open>JNum n\<close>, or a
  decimal fraction, \<open>JDec m e\<close> for \<open>m / 10 ^ e\<close> in lowest terms (\<open>e\<close> positive, \<open>m\<close> no
  multiple of ten); strings are sequences of 8-bit characters. An object is written as the list of its
  property assignments in order: a later assignment of a name overrides an earlier one and
  keeps the position of the first, as assignment to an existing property does. Values are
  compared structurally, so \<^verbatim>\<open>===\<close> is equality of values; the identity of two objects
  with equal contents is not modelled. The not-a-number value, the infinities and the
  negative zero are no values of the model. An engine enumerates the array-index keys of
  an object before its other keys; the operations on property lists do not reorder them:
  the statements below read fields by name, and the one about serialised text asks for
  the keys to be listed in the engine's order.
\<close>

datatype jsval =
    JUndefined
  | JNull
  | JBool bool
  | JNum int
  | JDec int nat
  | JStr string
  | JArr "jsval list"
  | JObj "(string \<times> jsval) list"

datatype error =
    ValidationError string
  | NotFoundError jsval
  | DuplicateIdError jsval
  | ImportFormatError
  | PersistenceError
  | TypeError

text \<open>The conversion to boolean that \<^verbatim>\<open>!x\<close>, \<^verbatim>\<open>x || y\<close> and \<^verbatim>\<open>if (x)\<close> apply.\<close>

fun truthy :: "jsval \<Rightarrow> bool" where
  "truthy JUndefined = False"
| "truthy JNull = False"
| "truthy (JBool b) = b"
| "truthy (JNum n) = (n \<noteq> 0)"
| "truthy (JDec m e) = (m \<noteq> 0)"
| "truthy (JStr s) = (s \<noteq> [])"
| "truthy (JArr xs) = True"
| "truthy (JObj ps) = True"

text \<open>\<^verbatim>\<open>typeof x === 'object'\<close>: true of objects, arrays and \<^verbatim>\<open>null\<close>.\<close>

fun typeof_object :: "jsval \<Rightarrow> bool" where
  "typeof_object JNull = True"
| "typeof_object (JArr xs) = True"
| "typeof_object (JObj ps) = True"
| "typeof_object v = False"

text \<open>The value a name has after the assignments of a property list: the last one wins.\<close>

fun lookup :: "string \<Rightarrow> (string \<times> jsval) list \<Rightarrow> jsval option" where
  "lookup k [] = None"
| "lookup k (p # ps) =
     (case lookup k ps of
        Some w \<Rightarrow> Some w
      | None \<Rightarrow> if fst p = k then Some (snd p) else None)"

text \<open>
  Assignment \<^verbatim>\<open>obj[k] = v\<close>: an existing property keeps its place and takes the new
  value, a new property is added at the end.
\<close>

definition set_prop :: "string \<Rightarrow> jsval \<Rightarrow> (string \<times> jsval) list \<Rightarrow> (string \<times> jsval) list" where
  "set_prop k v ps =
     (if k \<in> fst ` set ps then map (\<lambda>p. if fst p = k then (k, v) else p) ps
      else ps @ [(k, v)])"

text \<open>
  The property read \<^verbatim>\<open>x.k\<close> for the names of record fields (\<^verbatim>\<open>id\<close>, \<^verbatim>\<open>data\<close>,
  \<^verbatim>\<open>createdAt\<close> and the like; not \<^verbatim>\<open>length\<close>, an index or an inherited method): a
  \<^verbatim>\<open>TypeError\<close> on \<^verbatim>\<open>null\<close> and \<^verbatim>\<open>undefined\<close>, the property's value on an object, and
  \<^verbatim>\<open>undefined\<close> where there is no such property, as on every array and primitive value.
\<close>

fun get_prop :: "string \<Rightarrow> jsval \<Rightarrow> error + jsval" where
  "get_prop k JUndefined = Inl TypeError"
| "get_prop k JNull = Inl TypeError"
| "get_prop k (JObj ps) = Inr (case lookup k ps of None \<Rightarrow> JUndefined | Some v \<Rightarrow> v)"
| "get_prop k v = Inr JUndefined"

text \<open>Decimal digits of a natural number, as in the keys \<^verbatim>\<open>"0"\<close>, \<^verbatim>\<open>"1"\<close>, ... of an array.\<close>

definition digit_char :: "nat \<Rightarrow> char" where
  "digit_char d = ''0123456789'' ! d"

function show_nat :: "nat \<Rightarrow> string" where
  "show_nat n = (if n < 10 then [digit_char n] else show_nat (n div 10) @ [digit_char (n mod 10)])"
  by pat_completeness auto
termination
  by (relation "measure id") auto

declare show_nat.simps [simp del]

definition show_int :: "int \<Rightarrow> string" where
  "show_int i = (if i < 0 then CHR ''-'' # show_nat (nat (- i)) else show_nat (nat i))"

text \<open>
  The text of a number that is not an integer, as \<^verbatim>\<open>Number.prototype.toString\<close> writes
  it. With \<open>k\<close> digits in \<open>m\<close>, the decimal point stands \<open>k - e\<close> places after the first
  digit: the number is written with a decimal point when that is more than \<open>-6\<close>, and with
  an exponent otherwise.
\<close>

definition pad_zeros :: "nat \<Rightarrow> nat \<Rightarrow> string" where
  "pad_zeros w n = replicate (w - length (show_nat n)) (CHR ''0'') @ show_nat n"

definition show_dec :: "int \<Rightarrow> nat \<Rightarrow> string" where
  "show_dec m e =
     (let a = nat \<bar>m\<bar>;
          ds = show_nat a;
          k = length ds;
          body =
            (if e < k + 6
               then show_nat (a div 10 ^ e) @ CHR ''.'' # pad_zeros e (a mod 10 ^ e)
             else hd ds # (if k = 1 then [] else CHR ''.'' # tl ds) @ ''e-'' @ show_nat (e + 1 - k))
      in if m < 0 then CHR ''-'' # body else body)"

text \<open>
  The own enumerable properties that an object spread \<^verbatim>\<open>{...x}\<close> copies: those of an
  object, the indexed elements of an array, the indexed characters of a string, and nothing
  for the other values (\<^verbatim>\<open>null\<close> and \<^verbatim>\<open>undefined\<close> included, which spread accepts).
\<close>

fun own_props :: "jsval \<Rightarrow> (string \<times> jsval) list" where
  "own_props (JObj ps) = ps"
| "own_props (JArr xs) = zip (map show_nat [0..<length xs]) xs"
| "own_props (JStr s) = zip (map show_nat [0..<length s]) (map (\<lambda>c. JStr [c]) s)"
| "own_props v = []"

definition spread :: "(string \<times> jsval) list \<Rightarrow> jsval \<Rightarrow> (string \<times> jsval) list" where
  "spread obj src = fold (\<lambda>p acc. set_prop (fst p) (snd p) acc) (own_props src) obj"

section \<open>Serialisation\<close>

text \<open>
  \<^verbatim>\<open>JSON.stringify\<close> on the values above. Inside a string the quotation mark, the
  backslash and the control characters are escaped; an \<^verbatim>\<open>undefined\<close> array element is
  written \<^verbatim>\<open>null\<close> and an \<^verbatim>\<open>undefined\<close> property is left out.
\<close>

definition hex_digit :: "nat \<Rightarrow> char" where
  "hex_digit d = ''0123456789abcdef'' ! d"

definition escape_char :: "char \<Rightarrow> string" where
  "escape_char c =
     (if c = CHR 0x22 then [CHR 0x5C, CHR 0x22]
      else if c = CHR 0x5C then [CHR 0x5C, CHR 0x5C]
      else if c = CHR 0x08 then [CHR 0x5C, CHR ''b'']
      else if c = CHR 0x0C then [CHR 0x5C, CHR ''f'']
      else if c = CHR 0x0A then [CHR 0x5C, CHR ''n'']
      else if c = CHR 0x0D then [CHR 0x5C, CHR ''r'']
      else if c = CHR 0x09 then [CHR 0x5C, CHR ''t'']
      else if (of_char c :: nat) < 32
        then [CHR 0x5C, CHR ''u'', CHR ''0'', CHR ''0'',
              hex_digit (of_char c div 16), hex_digit (of_char c mod 16)]
      else [c])"

definition quote :: "string \<Rightarrow> string" where
  "quote s = CHR 0x22 # concat (map escape_char s) @ [CHR 0x22]"

fun join_comma :: "string list \<Rightarrow> string" where
  "join_comma [] = []"
| "join_comma [s] = s"
| "join_comma (s # t # ts) = s @ CHR '','' # join_comma (t # ts)"

fun ser :: "jsval \<Rightarrow> string"
  and ser_elems :: "jsval list \<Rightarrow> string list"
  and ser_props :: "(string \<times> jsval) list \<Rightarrow> string list" where
  "ser JUndefined = ''null''"
| "ser JNull = ''null''"
| "ser (JBool b) = (if b then ''true'' else ''false'')"
| "ser (JNum n) = show_int n"
| "ser (JDec m e) = show_dec m e"
| "ser (JStr s) = quote s"
| "ser (JArr xs) = CHR ''['' # join_comma (ser_elems xs) @ '']''"
| "ser (JObj ps) = CHR ''{'' # join_comma (ser_props ps) @ ''}''"
| "ser_elems [] = []"
| "ser_elems (x # xs) = ser x # ser_elems xs"
| "ser_props [] = []"
| "ser_props (p # ps) =
     (if snd p = JUndefined then ser_props ps
      else (quote (fst p) @ CHR '':'' # ser (snd p)) # ser_props ps)"

text \<open>\<^verbatim>\<open>JSON.stringify(x)\<close> itself returns \<^verbatim>\<open>undefined\<close>, not a string, for \<^verbatim>\<open>undefined\<close>.\<close>

definition JSON_stringify :: "jsval \<Rightarrow> jsval" where
  "JSON_stringify v = (if v = JUndefined then JUndefined else JStr (ser v))"

section \<open>The record store\<close>

text \<open>
  One \<^verbatim>\<open>BaseStorage\<close> instance. \<open>validate\<close> is the hook a subclass overrides
  (\<open>Some msg\<close> when it throws), \<open>prefix\<close> and \<open>version\<close> are what the store reads from
  the global configuration. Listeners are identified by a number and kept in subscription
  order; \<open>calls\<close> records every invocation of a listener with its three arguments.
  Listeners are observers: what a listener does is not part of the store's state, and an
  exception it throws is caught by the store. \<open>localStorage\<close> is the browser's key-value
  area.
\<close>

record store =
  storageKey :: string
  validation :: bool
  compression :: bool
  validate :: "jsval \<Rightarrow> string option"
  prefix :: string
  version :: string
  data :: "jsval list"
  listeners :: "nat list"
  calls :: "(nat \<times> string \<times> jsval \<times> string) list"
  localStorage :: "(string \<times> string) list"

text \<open>
  What one call reads from outside the store: \<open>now k\<close> is the result of the \<open>k\<close>-th
  \<^verbatim>\<open>new Date().toISOString()\<close> of the call, \<open>date_now\<close> and \<open>random_suffix\<close> are
  what \<^verbatim>\<open>_generateId\<close> gets from the clock and the random generator, and \<open>setItem_ok\<close>
  says whether the browser accepts a write (it throws when the quota is exceeded).
\<close>

record env =
  now :: "nat \<Rightarrow> string"
  date_now :: nat
  random_suffix :: string
  setItem_ok :: "string \<Rightarrow> string \<Rightarrow> bool"

definition getAll :: "store \<Rightarrow> jsval list" where
  "getAll st = data st"

text \<open>
  \<^verbatim>\<open>findIndex(item => item.id === id)\<close>: the first position whose \<^verbatim>\<open>id\<close> is the one
  asked for, \<open>None\<close> for \<^verbatim>\<open>-1\<close>, and the \<^verbatim>\<open>TypeError\<close> of reading \<^verbatim>\<open>id\<close> from
  \<^verbatim>\<open>null\<close> or \<^verbatim>\<open>undefined\<close> if such an entry comes first.
\<close>

fun findIndex :: "jsval \<Rightarrow> jsval list \<Rightarrow> error + nat option" where
  "findIndex i [] = Inr None"
| "findIndex i (x # xs) =
     (case get_prop ''id'' x of
        Inl e \<Rightarrow> Inl e
      | Inr v \<Rightarrow>
          if v = i then Inr (Some 0)
          else (case findIndex i xs of
                  Inl e \<Rightarrow> Inl e
                | Inr None \<Rightarrow> Inr None
                | Inr (Some n) \<Rightarrow> Inr (Some (Suc n))))"

text \<open>
  \<^verbatim>\<open>getById\<close>: \<^verbatim>\<open>find(...) || null\<close> inside a \<^verbatim>\<open>try\<close> whose handler returns
  \<^verbatim>\<open>null\<close>.
\<close>

definition getById :: "store \<Rightarrow> jsval \<Rightarrow> jsval" where
  "getById st i =
     (case findIndex i (data st) of
        Inl e \<Rightarrow> JNull
      | Inr None \<Rightarrow> JNull
      | Inr (Some n) \<Rightarrow> if truthy (data st ! n) then data st ! n else JNull)"

definition count :: "store \<Rightarrow> nat" where
  "count st = length (data st)"

text \<open>
  \<^verbatim>\<open>_validateData\<close>: the data must be truthy and of type object, then the hook decides.
  Every exception of the source is an \<^verbatim>\<open>Error\<close> with a message; the model names the kind
  and, where it keeps a message, gives it in English.
\<close>

definition validateData :: "store \<Rightarrow> jsval \<Rightarrow> error + unit" where
  "validateData st d =
     (if \<not> truthy d \<or> \<not> typeof_object d
        then Inl (ValidationError ''data must be an object'')
      else (case validate st d of
              Some msg \<Rightarrow> Inl (ValidationError msg)
            | None \<Rightarrow> Inr ()))"

definition generateId :: "env \<Rightarrow> string" where
  "generateId e = show_nat (date_now e) @ CHR ''_'' # random_suffix e"

definition compress :: "jsval \<Rightarrow> jsval" where
  "compress d = JSON_stringify d"

text \<open>
  \<^verbatim>\<open>_save\<close>: the whole record sequence is serialised and written under the prefixed key;
  a refused write is rethrown.
\<close>

definition save :: "env \<Rightarrow> store \<Rightarrow> error + store" where
  "save e st =
     (let key = prefix st @ storageKey st;
          dataToSave =
            (if compression st
               then JObj [(''_compressed'', JBool True), (''data'', compress (JArr (data st)))]
             else JArr (data st));
          text = ser dataToSave
      in if setItem_ok e key text
           then Inr (st\<lparr>localStorage := (key, text) # filter (\<lambda>p. fst p \<noteq> key) (localStorage st)\<rparr>)
         else Inl PersistenceError)"

definition notifyListeners :: "string \<Rightarrow> jsval \<Rightarrow> store \<Rightarrow> store" where
  "notifyListeners action d st =
     st\<lparr>calls := calls st @ map (\<lambda>l. (l, action, d, storageKey st)) (listeners st)\<rparr>"

definition subscribe :: "nat \<Rightarrow> store \<Rightarrow> store" where
  "subscribe l st = (if l \<in> set (listeners st) then st else st\<lparr>listeners := listeners st @ [l]\<rparr>)"

text \<open>
  The operations return the outcome of the call (\<open>Inl\<close> an exception that reaches the
  caller) together with the store as the call leaves it, also when it throws.
\<close>

definition create :: "env \<Rightarrow> store \<Rightarrow> jsval \<Rightarrow> (error + jsval) \<times> store" where
  "create e st itemData =
     (case (if validation st then validateData st itemData else Inr ()) of
        Inl err \<Rightarrow> (Inl err, st)
      | Inr u \<Rightarrow>
          (case get_prop ''id'' itemData of
             Inl err \<Rightarrow> (Inl err, st)
           | Inr given \<Rightarrow>
               let newId = (if truthy given then given else JStr (generateId e));
                   newItem = JObj (set_prop ''updatedAt'' (JStr (now e 1))
                               (set_prop ''createdAt'' (JStr (now e 0))
                                 (set_prop ''id'' newId (spread [] itemData))))
               in if truthy (getById st newId) then (Inl (DuplicateIdError newId), st)
                  else
                    let st1 = st\<lparr>data := data st @ [newItem]\<rparr>
                    in (case save e st1 of
                          Inl err \<Rightarrow> (Inl err, st1)
                        | Inr st2 \<Rightarrow> (Inr newItem, notifyListeners ''create'' newItem st2))))"

definition update :: "env \<Rightarrow> store \<Rightarrow> jsval \<Rightarrow> jsval \<Rightarrow> (error + jsval) \<times> store" where
  "update e st i updates =
     (case findIndex i (data st) of
        Inl err \<Rightarrow> (Inl err, st)
      | Inr None \<Rightarrow> (Inl (NotFoundError i), st)
      | Inr (Some n) \<Rightarrow>
          let updatedItem = JObj (set_prop ''updatedAt'' (JStr (now e 0))
                              (set_prop ''id'' i (spread (spread [] (data st ! n)) updates)))
          in (case (if validation st then validateData st updatedItem else Inr ()) of
                Inl err \<Rightarrow> (Inl err, st)
              | Inr u \<Rightarrow>
                  let st1 = st\<lparr>data := (data st)[n := updatedItem]\<rparr>
                  in (case save e st1 of
                        Inl err \<Rightarrow> (Inl err, st1)
                      | Inr st2 \<Rightarrow> (Inr updatedItem, notifyListeners ''update'' updatedItem st2))))"

text \<open>\<^verbatim>\<open>delete\<close> catches every exception and answers \<^verbatim>\<open>false\<close>.\<close>

definition delete :: "env \<Rightarrow> store \<Rightarrow> jsval \<Rightarrow> bool \<times> store" where
  "delete e st i =
     (case findIndex i (data st) of
        Inl err \<Rightarrow> (False, st)
      | Inr None \<Rightarrow> (False, st)
      | Inr (Some n) \<Rightarrow>
          let deletedItem = data st ! n;
              st1 = st\<lparr>data := take n (data st) @ drop (Suc n) (data st)\<rparr>
          in (case save e st1 of
                Inl err \<Rightarrow> (False, st1)
              | Inr st2 \<Rightarrow> (True, notifyListeners ''delete'' deletedItem st2)))"

text \<open>
  The body of \<^verbatim>\<open>bulkUpdate\<close>'s mapping: the \<open>k\<close>-th item is validated and copied with
  the \<open>k\<close>-th reading of the clock; the first exception ends the mapping.
\<close>

fun validatedItems :: "env \<Rightarrow> store \<Rightarrow> nat \<Rightarrow> jsval list \<Rightarrow> error + jsval list" where
  "validatedItems e st k [] = Inr []"
| "validatedItems e st k (item # items) =
     (case (if validation st then validateData st item else Inr ()) of
        Inl err \<Rightarrow> Inl err
      | Inr u \<Rightarrow>
          (case validatedItems e st (Suc k) items of
             Inl err \<Rightarrow> Inl err
           | Inr rest \<Rightarrow>
               Inr (JObj (set_prop ''updatedAt'' (JStr (now e k)) (spread [] item)) # rest)))"

text \<open>
  The \<^verbatim>\<open>try\<close> block of \<^verbatim>\<open>bulkUpdate\<close>, and the method with its handler, which turns
  every exception into the answer \<^verbatim>\<open>false\<close>.
\<close>

definition bulkUpdate_try :: "env \<Rightarrow> store \<Rightarrow> jsval list \<Rightarrow> (error + bool) \<times> store" where
  "bulkUpdate_try e st items =
     (case validatedItems e st 0 items of
        Inl err \<Rightarrow> (Inl err, st)
      | Inr vs \<Rightarrow>
          let st1 = st\<lparr>data := vs\<rparr>
          in (case save e st1 of
                Inl err \<Rightarrow> (Inl err, st1)
              | Inr st2 \<Rightarrow> (Inr True, notifyListeners ''bulkUpdate'' (JArr vs) st2)))"

definition bulkUpdate :: "env \<Rightarrow> store \<Rightarrow> jsval list \<Rightarrow> (error + bool) \<times> store" where
  "bulkUpdate e st items =
     (case bulkUpdate_try e st items of
        (Inl err, st') \<Rightarrow> (Inr False, st')
      | (Inr b, st') \<Rightarrow> (Inr b, st'))"

definition clear :: "env \<Rightarrow> store \<Rightarrow> (error + unit) \<times> store" where
  "clear e st =
     (let st1 = st\<lparr>data := []\<rparr>
      in (case save e st1 of
            Inl err \<Rightarrow> (Inl err, st1)
          | Inr st2 \<Rightarrow> (Inr (), notifyListeners ''clear'' (JArr []) st2)))"

text \<open>\<^verbatim>\<open>export\<close>; the field \<^verbatim>\<open>data\<close> is the store's own sequence.\<close>

definition export :: "env \<Rightarrow> store \<Rightarrow> jsval" where
  "export e st =
     JObj [(''storageKey'', JStr (storageKey st)),
           (''version'', JStr (version st)),
           (''exportedAt'', JStr (now e 0)),
           (''data'', JArr (data st))]"

text \<open>The identifiers of a sequence, read as \<^verbatim>\<open>map(item => item.id)\<close> reads them.\<close>

fun ids_of :: "jsval list \<Rightarrow> error + jsval list" where
  "ids_of [] = Inr []"
| "ids_of (x # xs) =
     (case get_prop ''id'' x of
        Inl e \<Rightarrow> Inl e
      | Inr v \<Rightarrow> (case ids_of xs of Inl e \<Rightarrow> Inl e | Inr vs \<Rightarrow> Inr (v # vs)))"

text \<open>\<^verbatim>\<open>filter(item => !existingIds.has(item.id))\<close>.\<close>

fun newItems :: "jsval list \<Rightarrow> jsval list \<Rightarrow> error + jsval list" where
  "newItems existingIds [] = Inr []"
| "newItems existingIds (x # xs) =
     (case get_prop ''id'' x of
        Inl e \<Rightarrow> Inl e
      | Inr v \<Rightarrow>
          (case newItems existingIds xs of
             Inl e \<Rightarrow> Inl e
           | Inr r \<Rightarrow> Inr (if v \<in> set existingIds then r else x # r)))"

definition import_finish :: "env \<Rightarrow> store \<Rightarrow> (error + unit) \<times> store" where
  "import_finish e st1 =
     (case save e st1 of
        Inl err \<Rightarrow> (Inl err, st1)
      | Inr st2 \<Rightarrow> (Inr (), notifyListeners ''import'' (JArr (data st2)) st2))"

definition import :: "env \<Rightarrow> store \<Rightarrow> jsval \<Rightarrow> bool \<Rightarrow> (error + unit) \<times> store" where
  "import e st exportedData merge =
     (if \<not> truthy exportedData then (Inl ImportFormatError, st)
      else (case get_prop ''data'' exportedData of
              Inl err \<Rightarrow> (Inl err, st)
            | Inr (JArr incoming) \<Rightarrow>
                if merge then
                  (case ids_of (data st) of
                     Inl err \<Rightarrow> (Inl err, st)
                   | Inr existingIds \<Rightarrow>
                       (case newItems existingIds incoming of
                          Inl err \<Rightarrow> (Inl err, st)
                        | Inr new \<Rightarrow> import_finish e (st\<lparr>data := data st @ new\<rparr>)))
                else import_finish e (st\<lparr>data := incoming\<rparr>)
            | Inr other \<Rightarrow> (Inl ImportFormatError, st)))"

section \<open>Parsing\<close>

text \<open>
  \<^verbatim>\<open>JSON.parse\<close> on the values above. A text is parsed to a value, is rejected with a
  \<^verbatim>\<open>SyntaxError\<close>, or is \<open>Unmodelled\<close>: it denotes, or may denote, a value outside the
  model (an integer beyond the safe integers, a fraction with more than 15 significant
  digits, a four-digit escape above \<open>00ff\<close>, an object whose properties the engine would
  enumerate in another order than the text lists them), and the model says nothing about
  it.
\<close>

datatype 'a parsed = Parsed 'a | SyntaxError | Unmodelled

text \<open>
  The four characters JSON counts as white space, decimal and hexadecimal digits, and the
  value of a run of decimal digits.
\<close>

definition is_ws :: "char \<Rightarrow> bool" where
  "is_ws c = (c = CHR '' '' \<or> c = CHR 0x09 \<or> c = CHR 0x0A \<or> c = CHR 0x0D)"

definition skip_ws :: "string \<Rightarrow> string" where
  "skip_ws s = dropWhile is_ws s"

definition is_digit :: "char \<Rightarrow> bool" where
  "is_digit c = (c \<in> set ''0123456789'')"

definition digit_val :: "char \<Rightarrow> nat" where
  "digit_val c = of_char c - 48"

definition hex_val :: "char \<Rightarrow> nat option" where
  "hex_val c =
     (if is_digit c then Some (of_char c - 48)
      else if c \<in> set ''abcdef'' then Some (of_char c - 87)
      else if c \<in> set ''ABCDEF'' then Some (of_char c - 55)
      else None)"

definition read_nat :: "string \<Rightarrow> nat" where
  "read_nat ds = foldl (\<lambda>n c. 10 * n + digit_val c) 0 ds"

text \<open>
  The characters of a string after its opening quotation mark, up to the closing one.
  A raw control character is an error; a backslash starts one of the escapes of JSON.
\<close>

definition unescape :: "char \<Rightarrow> char option" where
  "unescape e =
     (if e = CHR 0x22 \<or> e = CHR 0x5C \<or> e = CHR ''/'' then Some e
      else if e = CHR ''b'' then Some (CHR 0x08)
      else if e = CHR ''f'' then Some (CHR 0x0C)
      else if e = CHR ''n'' then Some (CHR 0x0A)
      else if e = CHR ''r'' then Some (CHR 0x0D)
      else if e = CHR ''t'' then Some (CHR 0x09)
      else None)"

definition cons_char :: "char \<Rightarrow> (string \<times> string) parsed \<Rightarrow> (string \<times> string) parsed" where
  "cons_char c p = (case p of Parsed (s, r) \<Rightarrow> Parsed (c # s, r) | SyntaxError \<Rightarrow> SyntaxError
                    | Unmodelled \<Rightarrow> Unmodelled)"

fun parse_chars :: "string \<Rightarrow> (string \<times> string) parsed" where
  "parse_chars [] = SyntaxError"
| "parse_chars (c # cs) =
     (if c = CHR 0x22 then Parsed ([], cs)
      else if c = CHR 0x5C then
        (case cs of
           [] \<Rightarrow> SyntaxError
         | e # r \<Rightarrow>
             if e = CHR ''u'' then
               (case r of
                  h1 # h2 # h3 # h4 # r' \<Rightarrow>
                    (case (hex_val h1, hex_val h2, hex_val h3, hex_val h4) of
                       (Some a, Some b, Some c', Some d) \<Rightarrow>
                         if a = 0 \<and> b = 0 then cons_char (char_of (16 * c' + d)) (parse_chars r')
                         else Unmodelled
                     | _ \<Rightarrow> SyntaxError)
                | _ \<Rightarrow> SyntaxError)
             else (case unescape e of
                     Some ch \<Rightarrow> cons_char ch (parse_chars r)
                   | None \<Rightarrow> SyntaxError))
      else if (of_char c :: nat) < 32 then SyntaxError
      else cons_char c (parse_chars cs))"

text \<open>
  The value of a number token. \<open>strip_zeros\<close> takes the trailing zeros off the digits, so
  that the token stands for \<open>q * 10 ^ p\<close> with \<open>q\<close> no multiple of ten. An integer is a
  \<open>JNum\<close> when a double holds it exactly, a fraction is a \<open>JDec\<close> when it has at most 15
  significant digits: the double nearest to such a decimal is written back as the same
  decimal. The other numbers, the negative zero among them, are outside the model.
\<close>

function strip_zeros :: "nat \<Rightarrow> nat \<times> nat" where
  "strip_zeros n =
     (if n = 0 \<or> n mod 10 \<noteq> 0 then (n, 0)
      else (case strip_zeros (n div 10) of (q, z) \<Rightarrow> (q, Suc z)))"
  by pat_completeness auto
termination
  by (relation "measure id") auto

declare strip_zeros.simps [simp del]

definition number_value :: "bool \<Rightarrow> string \<Rightarrow> string \<Rightarrow> bool \<Rightarrow> string \<Rightarrow> jsval option" where
  "number_value neg ip fr eneg ex =
     (let M = read_nat (ip @ fr)
      in if M = 0 then (if neg then None else Some (JNum 0))
         else
           let q = fst (strip_zeros M);
               z = snd (strip_zeros M);
               x = int (read_nat ex);
               p = (if eneg then - x else x) - int (length fr) + int z
           in if 0 \<le> p then
                (if 16 < p then None
                 else if 9007199254740991 < q * 10 ^ nat p then None
                 else Some (JNum (if neg then - int (q * 10 ^ nat p) else int (q * 10 ^ nat p))))
              else
                (if 15 < length (show_nat q) \<or> 300 < - p then None
                 else Some (JDec (if neg then - int q else int q) (nat (- p)))))"

text \<open>
  A number token: an optional minus sign, an integer part without leading zero, an
  optional fraction and an optional exponent.  The two optional parts are read by
  \<open>parse_fraction\<close> and \<open>parse_exponent\<close>; \<open>None\<close> is a syntax error (no digit
  after the point, or none in the exponent).
\<close>

definition parse_fraction :: "string \<Rightarrow> (string \<times> string) option" where
  "parse_fraction r =
     (if r \<noteq> [] \<and> hd r = CHR ''.'' then
        (if takeWhile is_digit (tl r) = [] then None
         else Some (takeWhile is_digit (tl r), dropWhile is_digit (tl r)))
      else Some ([], r))"

definition parse_exponent :: "string \<Rightarrow> (bool \<times> string \<times> string) option" where
  "parse_exponent r =
     (if r \<noteq> [] \<and> hd r \<in> set ''eE'' then
        (let r' = tl r;
             has_sign = (r' \<noteq> [] \<and> hd r' \<in> set ''+-'');
             r'' = (if has_sign then tl r' else r')
         in if takeWhile is_digit r'' = [] then None
            else Some (has_sign \<and> hd r' = CHR ''-'', takeWhile is_digit r'', dropWhile is_digit r''))
      else Some (False, [], r))"

definition parse_number :: "string \<Rightarrow> (jsval \<times> string) parsed" where
  "parse_number s =
     (let neg = (s \<noteq> [] \<and> hd s = CHR ''-'');
          s1 = (if neg then tl s else s);
          ip = takeWhile is_digit s1
      in if ip = [] then SyntaxError
         else if hd ip = CHR ''0'' \<and> 1 < length ip then SyntaxError
         else (case parse_fraction (dropWhile is_digit s1) of
                 None \<Rightarrow> SyntaxError
               | Some (fr, r2) \<Rightarrow>
                   (case parse_exponent r2 of
                      None \<Rightarrow> SyntaxError
                    | Some (eneg, ex, r3) \<Rightarrow>
                        (case number_value neg ip fr eneg ex of
                           None \<Rightarrow> Unmodelled
                         | Some v \<Rightarrow> Parsed (v, r3)))))"

definition parse_literal :: "string \<Rightarrow> jsval \<Rightarrow> string \<Rightarrow> (jsval \<times> string) parsed" where
  "parse_literal w v s =
     (if take (length w) s = w then Parsed (v, drop (length w) s) else SyntaxError)"

text \<open>
  An engine enumerates the array-index keys of an object first, in ascending order, and
  the other keys after them in the order of their creation. \<open>key_order_ok\<close> says that a
  list of keys is in that order already: an array index never follows a key that is no
  array index or a larger one.
\<close>

definition is_index :: "string \<Rightarrow> bool" where
  "is_index k =
     (k \<noteq> [] \<and> list_all is_digit k \<and> (length k = 1 \<or> hd k \<noteq> CHR ''0'') \<and>
      read_nat k \<le> 4294967294)"

fun key_order_ok :: "string list \<Rightarrow> bool" where
  "key_order_ok (k # k' # ks) =
     ((\<not> is_index k' \<or> (is_index k \<and> read_nat k < read_nat k')) \<and> key_order_ok (k' # ks))"
| "key_order_ok ks = True"

text \<open>
  Values, the elements of a non-empty array and the members of a non-empty object. The
  first argument bounds the number of nested calls; \<open>JSON_parse_text\<close> below starts with
  more than the length of the text. A repeated key of an object overrides the earlier
  member and keeps its place, as \<^verbatim>\<open>JSON.parse\<close> does; an object whose keys the engine
  would put in another order is outside the model.
\<close>

fun parse_value :: "nat \<Rightarrow> string \<Rightarrow> (jsval \<times> string) parsed"
  and parse_elems :: "nat \<Rightarrow> string \<Rightarrow> (jsval list \<times> string) parsed"
  and parse_members :: "nat \<Rightarrow> string \<Rightarrow> ((string \<times> jsval) list \<times> string) parsed" where
  "parse_value 0 s = Unmodelled"
| "parse_value (Suc f) s =
     (case skip_ws s of
        [] \<Rightarrow> SyntaxError
      | c # cs \<Rightarrow>
          if c = CHR 0x22 then
            (case parse_chars cs of
               Parsed (str, r) \<Rightarrow> Parsed (JStr str, r)
             | SyntaxError \<Rightarrow> SyntaxError
             | Unmodelled \<Rightarrow> Unmodelled)
          else if c = CHR ''['' then
            (case skip_ws cs of
               [] \<Rightarrow> SyntaxError
             | d # r \<Rightarrow>
                 if d = CHR '']'' then Parsed (JArr [], r)
                 else (case parse_elems f cs of
                         Parsed (vs, r') \<Rightarrow> Parsed (JArr vs, r')
                       | SyntaxError \<Rightarrow> SyntaxError
                       | Unmodelled \<Rightarrow> Unmodelled))
          else if c = CHR ''{'' then
            (case skip_ws cs of
               [] \<Rightarrow> SyntaxError
             | d # r \<Rightarrow>
                 if d = CHR ''}'' then Parsed (JObj [], r)
                 else (case parse_members f cs of
                         Parsed (ps, r') \<Rightarrow>
                           if key_order_ok (map fst (fold (\<lambda>p acc. set_prop (fst p) (snd p) acc) ps []))
                           then Parsed (JObj (fold (\<lambda>p acc. set_prop (fst p) (snd p) acc) ps []), r')
                           else Unmodelled
                       | SyntaxError \<Rightarrow> SyntaxError
                       | Unmodelled \<Rightarrow> Unmodelled))
          else if c = CHR ''t'' then parse_literal ''true'' (JBool True) (c # cs)
          else if c = CHR ''f'' then parse_literal ''false'' (JBool False) (c # cs)
          else if c = CHR ''n'' then parse_literal ''null'' JNull (c # cs)
          else if c = CHR ''-'' \<or> is_digit c then parse_number (c # cs)
          else SyntaxError)"
| "parse_elems 0 s = Unmodelled"
| "parse_elems (Suc f) s =
     (case parse_value (Suc f) s of
        Parsed (v, r) \<Rightarrow>
          (case skip_ws r of
             [] \<Rightarrow> SyntaxError
           | d # r' \<Rightarrow>
               if d = CHR '','' then
                 (case parse_elems f r' of
                    Parsed (vs, r'') \<Rightarrow> Parsed (v # vs, r'')
                  | SyntaxError \<Rightarrow> SyntaxError
                  | Unmodelled \<Rightarrow> Unmodelled)
               else if d = CHR '']'' then Parsed ([v], r')
               else SyntaxError)
      | SyntaxError \<Rightarrow> SyntaxError
      | Unmodelled \<Rightarrow> Unmodelled)"
| "parse_members 0 s = Unmodelled"
| "parse_members (Suc f) s =
     (case skip_ws s of
        [] \<Rightarrow> SyntaxError
      | q # cs \<Rightarrow>
          if q \<noteq> CHR 0x22 then SyntaxError
          else
            (case parse_chars cs of
               Parsed (k, r) \<Rightarrow>
                 (case skip_ws r of
                    [] \<Rightarrow> SyntaxError
                  | col # r1 \<Rightarrow>
                      if col \<noteq> CHR '':'' then SyntaxError
                      else
                        (case parse_value (Suc f) r1 of
                           Parsed (v, r2) \<Rightarrow>
                             (case skip_ws r2 of
                                [] \<Rightarrow> SyntaxError
                              | d # r3 \<Rightarrow>
                                  if d = CHR '','' then
                                    (case parse_members f r3 of
                                       Parsed (ps, r4) \<Rightarrow> Parsed ((k, v) # ps, r4)
                                     | SyntaxError \<Rightarrow> SyntaxError
                                     | Unmodelled \<Rightarrow> Unmodelled)
                                  else if d = CHR ''}'' then Parsed ([(k, v)], r3)
                                  else SyntaxError)
                         | SyntaxError \<Rightarrow> SyntaxError
                         | Unmodelled \<Rightarrow> Unmodelled))
             | SyntaxError \<Rightarrow> SyntaxError
             | Unmodelled \<Rightarrow> Unmodelled))"

text \<open>
  \<^verbatim>\<open>JSON.parse(x)\<close> first converts its argument to a string: a string is taken as it
  is, an array is the comma-separated conversion of its elements (nothing for \<^verbatim>\<open>null\<close>
  and \<^verbatim>\<open>undefined\<close>), an object is \<^verbatim>\<open>[object Object]\<close>.
\<close>

fun to_string :: "jsval \<Rightarrow> string"
  and elems_to_string :: "jsval list \<Rightarrow> string list" where
  "to_string JUndefined = ''undefined''"
| "to_string JNull = ''null''"
| "to_string (JBool b) = (if b then ''true'' else ''false'')"
| "to_string (JNum n) = show_int n"
| "to_string (JDec m e) = show_dec m e"
| "to_string (JStr s) = s"
| "to_string (JArr xs) = join_comma (elems_to_string xs)"
| "to_string (JObj ps) = ''[object Object]''"
| "elems_to_string [] = []"
| "elems_to_string (x # xs) =
     (if x = JNull \<or> x = JUndefined then [] else to_string x) # elems_to_string xs"





text \<open>
  No \<^verbatim>\<open>undefined\<close> anywhere in a value: not the value itself, no element of an array in
  it and no field of an object in it.
\<close>

fun defined :: "jsval \<Rightarrow> bool"
  and defined_elems :: "jsval list \<Rightarrow> bool"
  and defined_props :: "(string \<times> jsval) list \<Rightarrow> bool" where
  "defined JUndefined = False"
| "defined (JArr xs) = defined_elems xs"
| "defined (JObj ps) = defined_props ps"
| "defined v = True"
| "defined_elems [] = True"
| "defined_elems (x # xs) = (defined x \<and> defined_elems xs)"
| "defined_props [] = True"
| "defined_props (p # ps) = (defined (snd p) \<and> defined_props ps)"

text \<open>
  What may follow a value inside a JSON text: a comma, a closing bracket or brace, or
  the end of the text.
\<close>

definition follow_ok :: "string \<Rightarrow> bool" where
  "follow_ok rest = (rest = [] \<or> hd rest \<in> set '',]}'')"

section \<open>Well-formed record sequences\<close>

text \<open>
  A record is an object; two records share an identifier when reading \<^verbatim>\<open>id\<close> from both
  gives the same value.
\<close>

fun is_object :: "jsval \<Rightarrow> bool" where
  "is_object (JObj ps) = True"
| "is_object v = False"

definition unique_ids :: "jsval list \<Rightarrow> bool" where
  "unique_ids xs = distinct (map (get_prop ''id'') xs)"

definition records_ok :: "jsval list \<Rightarrow> bool" where
  "records_ok xs = (list_all is_object xs \<and> unique_ids xs)"

section \<open>A concrete store\<close>

text \<open>
  A store in the style of the entity modules (\<^verbatim>\<open>ClientStorage\<close> in
  \<^verbatim>\<open>ocm_client_module.js\<close>): validation is on and the hook rejects data whose required
  field is missing or falsy. It holds one record and has one listener.
\<close>

definition required_name :: "jsval \<Rightarrow> string option" where
  "required_name d =
     (case get_prop ''name'' d of
        Inr v \<Rightarrow> if truthy v then None else Some ''missing required field: name''
      | Inl e \<Rightarrow> Some ''missing required field: name'')"

definition example_env :: env where
  "example_env =
     \<lparr>now = (\<lambda>k. ''2024-05-01T10:00:00.000Z''), date_now = 1714557600000,
      random_suffix = ''k3x9q2m1z'', setItem_ok = (\<lambda>k v. True)\<rparr>"

definition example_record :: jsval where
  "example_record =
     JObj [(''name'', JStr ''Acme''), (''id'', JStr ''c1''),
           (''createdAt'', JStr ''2024-01-01T00:00:00.000Z''),
           (''updatedAt'', JStr ''2024-01-01T00:00:00.000Z'')]"

definition example_new :: jsval where
  "example_new = JObj [(''name'', JStr ''Beta''), (''id'', JStr ''c2'')]"

definition example_store :: store where
  "example_store =
     \<lparr>storageKey = ''clients'', validation = True, compression = False,
      validate = required_name, prefix = ''ocm_v2_'', version = ''2.0.0'',
      data = [example_record], listeners = [0], calls = [], localStorage = []\<rparr>"





section \<open>Properties of the operations\<close>



lemma lookup_None_iff: "lookup k ps = None \<longleftrightarrow> k \<notin> fst ` set ps"
  by (induction ps) (auto split: option.splits)

lemma lookup_append:
  "lookup k (ps @ qs) = (case lookup k qs of Some w \<Rightarrow> Some w | None \<Rightarrow> lookup k ps)"
  by (induction ps) (auto split: option.splits)

lemma lookup_replace:
  "lookup k (map (\<lambda>p. if fst p = k' then (k', v) else p) ps) =
     (if k = k' then (if k' \<in> fst ` set ps then Some v else None) else lookup k ps)"
proof (induction ps)
  case Nil
  then show ?case by simp
next
  case (Cons p ps)
  then show ?case by (cases "fst p = k'") (auto split: option.splits)
qed

lemma lookup_set_prop:
  "lookup k (set_prop k' v ps) = (if k = k' then Some v else lookup k ps)"
proof (cases "k' \<in> fst ` set ps")
  case True
  then show ?thesis by (simp add: set_prop_def lookup_replace)
next
  case False
  then have "lookup k' ps = None" by (simp add: lookup_None_iff)
  with False show ?thesis by (auto simp: set_prop_def lookup_append)
qed

lemma lookup_fold_set_prop:
  "lookup k (fold (\<lambda>p acc. set_prop (fst p) (snd p) acc) qs obj) =
     (case lookup k qs of Some v \<Rightarrow> Some v | None \<Rightarrow> lookup k obj)"
  by (induction qs arbitrary: obj) (auto simp: lookup_set_prop split: option.splits)

lemma lookup_spread:
  "lookup k (spread obj src) =
     (case lookup k (own_props src) of Some v \<Rightarrow> Some v | None \<Rightarrow> lookup k obj)"
  by (simp add: spread_def lookup_fold_set_prop)

lemma save_fields:
  "save e st = Inr st2 \<Longrightarrow>
     data st2 = data st \<and> listeners st2 = listeners st \<and> calls st2 = calls st \<and>
     storageKey st2 = storageKey st \<and> validation st2 = validation st"
  by (auto simp: save_def Let_def split: if_splits)

lemma findIndex_Some:
  "findIndex i xs = Inr (Some n) \<Longrightarrow>
     n < length xs \<and> get_prop ''id'' (xs ! n) = Inr i \<and>
     (\<forall>j<n. get_prop ''id'' (xs ! j) \<noteq> Inr i)"
proof (induction xs arbitrary: n)
  case Nil
  then show ?case by simp
next
  case (Cons x xs)
  show ?case
  proof (cases "get_prop ''id'' x")
    case (Inl a)
    with Cons.prems show ?thesis by simp
  next
    case (Inr v)
    show ?thesis
    proof (cases "v = i")
      case True
      with Inr Cons.prems show ?thesis by simp
    next
      case False
      with Inr Cons.prems obtain m where m: "findIndex i xs = Inr (Some m)" "n = Suc m"
        by (auto split: sum.splits option.splits)
      from Cons.IH[OF m(1)] False Inr m(2) show ?thesis
        by (auto simp: nth_Cons split: nat.splits)
    qed
  qed
qed

lemma findIndex_None:
  "findIndex i xs = Inr None \<Longrightarrow> \<forall>x\<in>set xs. get_prop ''id'' x \<noteq> Inr i"
  by (induction xs) (auto split: sum.splits option.splits if_splits)

lemma notifyListeners_fields:
  "data (notifyListeners a d st) = data st \<and> listeners (notifyListeners a d st) = listeners st \<and>
   storageKey (notifyListeners a d st) = storageKey st"
  by (simp add: notifyListeners_def)

lemma update_success:
  assumes "update e st i updates = (Inr r, st')"
  shows "\<exists>n. findIndex i (data st) = Inr (Some n) \<and> data st' = (data st)[n := r] \<and>
             r = JObj (set_prop ''updatedAt'' (JStr (now e 0))
                        (set_prop ''id'' i (spread (spread [] (data st ! n)) updates)))"
  using assms
  by (auto simp: update_def Let_def notifyListeners_def dest!: save_fields
           split: sum.splits if_splits option.splits)

lemma get_prop_JObj_set_prop:
  "get_prop k (JObj (set_prop k' v ps)) = (if k = k' then Inr v else get_prop k (JObj ps))"
  by (simp add: lookup_set_prop)

lemma import_finish_data: "data (snd (import_finish e st1)) = data st1"
  by (auto simp: import_finish_def notifyListeners_def dest!: save_fields split: sum.splits)

lemma import_finish_outcome:
  "fst (import_finish e st1) = Inr () \<or> fst (import_finish e st1) = Inl PersistenceError"
  by (auto simp: import_finish_def save_def Let_def split: sum.splits if_splits)

lemma newItems_filter:
  "newItems ex xs = Inr r \<Longrightarrow> r = filter (\<lambda>x. get_prop ''id'' x \<notin> Inr ` set ex) xs"
proof (induction xs arbitrary: r)
  case Nil
  then show ?case by simp
next
  case (Cons x xs)
  then show ?case by (auto split: sum.splits if_splits)
qed

lemma ids_of_map: "ids_of xs = Inr vs \<Longrightarrow> map (get_prop ''id'') xs = map Inr vs"
  by (induction xs arbitrary: vs) (auto split: sum.splits)

lemma get_prop_error: "get_prop k v = Inl err \<Longrightarrow> err = TypeError"
  by (cases v) auto

lemma ids_of_error: "ids_of xs = Inl err \<Longrightarrow> err = TypeError"
  by (induction xs) (auto split: sum.splits dest: get_prop_error)

lemma newItems_error: "newItems ex xs = Inl err \<Longrightarrow> err = TypeError"
  by (induction xs) (auto split: sum.splits dest: get_prop_error)

lemma import_merge_cases:
  assumes "import e st snap True = (out, st')"
  shows "(st' = st \<and> (out = Inl ImportFormatError \<or> out = Inl TypeError)) \<or>
     (\<exists>incoming.
        get_prop ''data'' snap = Inr (JArr incoming) \<and>
        data st' = data st @ filter (\<lambda>x. get_prop ''id'' x \<notin> set (map (get_prop ''id'') (data st))) incoming \<and>
        (out = Inr () \<or> out = Inl PersistenceError))"
proof (cases "truthy snap")
  case False
  with assms show ?thesis by (simp add: import_def)
next
  case True
  show ?thesis
  proof (cases "get_prop ''data'' snap")
    case (Inl err)
    with True assms get_prop_error[OF Inl] show ?thesis by (simp add: import_def)
  next
    case (Inr d)
    show ?thesis
    proof (cases "\<exists>incoming. d = JArr incoming")
      case False
      with True Inr assms show ?thesis by (cases d) (simp_all add: import_def)
    next
      case isarr: True
      then obtain incoming where d: "d = JArr incoming" by blast
      show ?thesis
      proof (cases "ids_of (data st)")
        case (Inl err)
        with True Inr d assms ids_of_error[OF Inl] show ?thesis by (simp add: import_def)
      next
        case ex: (Inr existing)
        show ?thesis
        proof (cases "newItems existing incoming")
          case (Inl err)
          with True Inr d ex assms newItems_error[OF Inl] show ?thesis by (simp add: import_def)
        next
          case new: (Inr new)
          have fin: "import e st snap True = import_finish e (st\<lparr>data := data st @ new\<rparr>)"
            using True Inr d ex new by (simp add: import_def)
          have "new = filter (\<lambda>x. get_prop ''id'' x \<notin> Inr ` set existing) incoming"
            by (rule newItems_filter[OF new])
          moreover have "Inr ` set existing = set (map (get_prop ''id'') (data st))"
            using ids_of_map[OF ex] by simp
          ultimately have new': "new = filter (\<lambda>x. get_prop ''id'' x \<notin> set (map (get_prop ''id'') (data st))) incoming"
            by simp
          have "data st' = data st @ new"
            using assms fin import_finish_data[of e "st\<lparr>data := data st @ new\<rparr>"] by simp
          moreover have "out = Inr () \<or> out = Inl PersistenceError"
            using assms fin import_finish_outcome[of e "st\<lparr>data := data st @ new\<rparr>"] by simp
          ultimately show ?thesis using Inr d new' by blast
        qed
      qed
    qed
  qed
qed

lemma save_error: "save e st = Inl err \<Longrightarrow> err = PersistenceError"
  by (auto simp: save_def Let_def split: if_splits)

lemma create_rejected:
  "create e st d = (Inl err, st') \<Longrightarrow> err \<noteq> PersistenceError \<Longrightarrow> st' = st"
  by (auto simp: create_def Let_def split: sum.splits if_splits dest: save_error)

lemma update_rejected:
  "update e st i u = (Inl err, st') \<Longrightarrow> err \<noteq> PersistenceError \<Longrightarrow> st' = st"
  by (auto simp: update_def Let_def split: sum.splits if_splits option.splits dest: save_error)

lemma import_finish_rejected:
  "import_finish e st1 = (Inl err, st') \<Longrightarrow> err = PersistenceError"
  by (auto simp: import_finish_def split: sum.splits dest: save_error)

lemma import_rejected:
  "import e st snap m = (Inl err, st') \<Longrightarrow> err \<noteq> PersistenceError \<Longrightarrow> st' = st"
  by (auto simp: import_def split: sum.splits if_splits jsval.splits dest: import_finish_rejected)

lemma bulkUpdate_rejected:
  "bulkUpdate_try e st items = (Inl err, st') \<Longrightarrow> err \<noteq> PersistenceError \<Longrightarrow>
     bulkUpdate e st items = (Inr False, st)"
  by (auto simp: bulkUpdate_def bulkUpdate_try_def Let_def split: sum.splits dest: save_error)

lemma digit_char_digit: "d < 10 \<Longrightarrow> digit_char d \<in> set ''0123456789''"
proof -
  assume "d < 10"
  then have "d \<in> {0,1,2,3,4,5,6,7,8,9}" by auto
  then show ?thesis by (auto simp: digit_char_def)
qed

lemma show_nat_digits: "set (show_nat n) \<subseteq> set ''0123456789''"
proof (induction n rule: show_nat.induct)
  case (1 n)
  show ?case
  proof (cases "n < 10")
    case True
    then show ?thesis using digit_char_digit[of n] by (subst show_nat.simps) simp
  next
    case False
    have "n mod 10 < 10" by simp
    from digit_char_digit[OF this] 1[OF False] False show ?thesis
      by (subst show_nat.simps) simp
  qed
qed

lemma lookup_index_keys:
  assumes "\<exists>c\<in>set k. c \<notin> set ''0123456789''"
  shows "lookup k (zip (map show_nat ns) vs) = None"
proof -
  have "k \<notin> fst ` set (zip (map show_nat ns) vs)"
  proof
    assume "k \<in> fst ` set (zip (map show_nat ns) vs)"
    then have "k \<in> set (map show_nat ns)" by (auto dest: set_zip_leftD)
    then obtain n where "k = show_nat n" by auto
    with show_nat_digits[of n] assms show False by blast
  qed
  then show ?thesis by (simp add: lookup_None_iff)
qed

lemma get_prop_spread_copy:
  assumes "\<exists>c\<in>set k. c \<notin> set ''0123456789''" and "get_prop k v = Inr w"
  shows "(case lookup k (own_props v) of None \<Rightarrow> JUndefined | Some x \<Rightarrow> x) = w"
  using assms by (cases v) (auto simp: lookup_index_keys)

lemma create_success:
  assumes "create e st d = (Inr r, st')"
  shows "\<exists>given. get_prop ''id'' d = Inr given \<and>
           r = JObj (set_prop ''updatedAt'' (JStr (now e 1))
                 (set_prop ''createdAt'' (JStr (now e 0))
                   (set_prop ''id'' (if truthy given then given else JStr (generateId e))
                     (spread [] d)))) \<and>
           data st' = data st @ [r]"
proof -
  from assms obtain given where g: "get_prop ''id'' d = Inr given"
    by (cases "get_prop ''id'' d") (auto simp: create_def split: sum.splits)
  define newId where "newId = (if truthy given then given else JStr (generateId e))"
  define newItem where "newItem = JObj (set_prop ''updatedAt'' (JStr (now e 1))
                 (set_prop ''createdAt'' (JStr (now e 0)) (set_prop ''id'' newId (spread [] d))))"
  from assms g obtain st2 where "save e (st\<lparr>data := data st @ [newItem]\<rparr>) = Inr st2"
    and "r = newItem" and "st' = notifyListeners ''create'' newItem st2"
    unfolding create_def newItem_def newId_def
    by (simp add: Let_def split: sum.splits if_splits)
  with save_fields[OF this(1)] g show ?thesis
    by (simp add: notifyListeners_def newItem_def newId_def)
qed

lemma field_after_update:
  assumes "\<exists>c\<in>set k. c \<notin> set ''0123456789''" and "get_prop k x = Inr w"
    and "k \<noteq> ''updatedAt''" and "k \<noteq> ''id''"
  shows "get_prop k (JObj (set_prop ''updatedAt'' (JStr t)
                        (set_prop ''id'' i (spread (spread [] x) u)))) =
          (case lookup k (own_props u) of Some v \<Rightarrow> Inr v | None \<Rightarrow> Inr w)"
proof -
  have old: "(case lookup k (own_props x) of None \<Rightarrow> JUndefined | Some x \<Rightarrow> x) = w"
    by (rule get_prop_spread_copy[OF assms(1,2)])
  have "lookup k (set_prop ''updatedAt'' (JStr t)
                        (set_prop ''id'' i (spread (spread [] x) u))) =
      lookup k (spread (spread [] x) u)"
    using assms(3,4) by (simp add: lookup_set_prop)
  also have "\<dots> = (case lookup k (own_props u) of Some v \<Rightarrow> Some v
           | None \<Rightarrow> lookup k (own_props x))"
    by (simp add: lookup_spread split: option.splits)
  finally show ?thesis
    using old by (simp split: option.splits)
qed

lemma createdAt_not_index: "\<exists>c\<in>set ''createdAt''. c \<notin> set ''0123456789''"
  by simp

lemma findIndex_finds:
  assumes "\<forall>x\<in>set xs. x \<noteq> JNull \<and> x \<noteq> JUndefined" and "r \<in> set xs"
    and "get_prop ''id'' r = Inr i"
  shows "\<exists>n. findIndex i xs = Inr (Some n)"
  using assms
proof (induction xs)
  case Nil
  then show ?case by simp
next
  case (Cons x xs)
  from Cons.prems(1) obtain v where v: "get_prop ''id'' x = Inr v"
    by (cases x) auto
  show ?case
  proof (cases "v = i")
    case True
    with v show ?thesis by simp
  next
    case False
    with v Cons.prems have "r \<in> set xs" by auto
    with Cons.IH Cons.prems obtain m where "findIndex i xs = Inr (Some m)" by auto
    with v False show ?thesis by simp
  qed
qed

lemma truthy_id_is_object:
  "get_prop ''id'' x = Inr i \<Longrightarrow> truthy i \<Longrightarrow> truthy x"
  by (cases x) auto

lemma is_object_get_prop: "is_object x \<Longrightarrow> \<exists>v. get_prop k x = Inr v"
  by (cases x) auto

lemma findIndex_objects:
  "list_all is_object xs \<Longrightarrow> \<exists>r. findIndex i xs = Inr r"
proof (induction xs)
  case Nil
  then show ?case by simp
next
  case (Cons x xs)
  then obtain v r where "get_prop ''id'' x = Inr v" "findIndex i xs = Inr r"
    using is_object_get_prop[of x "''id''"] by auto
  then show ?case by (cases r) auto
qed

lemma findIndex_unique:
  assumes "records_ok xs" and "n < length xs" and "get_prop ''id'' (xs ! n) = Inr i"
  shows "findIndex i xs = Inr (Some n)"
  using assms
proof (induction xs arbitrary: n)
  case Nil
  then show ?case by simp
next
  case (Cons x xs)
  from Cons.prems(1) have ok: "records_ok xs" and notin: "get_prop ''id'' x \<notin> set (map (get_prop ''id'') xs)"
    by (auto simp: records_ok_def unique_ids_def)
  show ?case
  proof (cases n)
    case 0
    with Cons.prems(3) show ?thesis by simp
  next
    case (Suc m)
    with Cons.prems have m: "m < length xs" "get_prop ''id'' (xs ! m) = Inr i" by auto
    then have "Inr i \<in> set (map (get_prop ''id'') xs)"
      by (metis length_map nth_map nth_mem)
    with notin have ne: "get_prop ''id'' x \<noteq> Inr i" by auto
    from Cons.prems(1) obtain v where v: "get_prop ''id'' x = Inr v"
      using is_object_get_prop[of x "''id''"] by (auto simp: records_ok_def)
    from Cons.IH[OF ok m] have "findIndex i xs = Inr (Some m)" .
    with v ne Suc show ?thesis by simp
  qed
qed

lemma update_cases:
  assumes "update e st i u = (out, st')" and "findIndex i (data st) = Inr (Some n)"
  shows "(st' = st \<and> (\<exists>m. out = Inl (ValidationError m))) \<or>
         (data st' = (data st)[n := JObj (set_prop ''updatedAt'' (JStr (now e 0))
                              (set_prop ''id'' i (spread (spread [] (data st ! n)) u)))] \<and>
          (out = Inr (JObj (set_prop ''updatedAt'' (JStr (now e 0))
                              (set_prop ''id'' i (spread (spread [] (data st ! n)) u)))) \<or>
           out = Inl PersistenceError))"
proof -
  define item where "item = JObj (set_prop ''updatedAt'' (JStr (now e 0))
                              (set_prop ''id'' i (spread (spread [] (data st ! n)) u)))"
  show ?thesis
  proof (cases "validation st \<and> validateData st item \<noteq> Inr ()")
    case True
    then obtain err where "validateData st item = Inl err" by (cases "validateData st item") auto
    moreover from this have "\<exists>m. err = ValidationError m"
      by (auto simp: validateData_def split: if_splits option.splits)
    ultimately show ?thesis using assms True
      by (auto simp: update_def Let_def item_def)
  next
    case False
    then have v: "(if validation st then validateData st item else Inr ()) = Inr ()" by auto
    show ?thesis
    proof (cases "save e (st\<lparr>data := (data st)[n := item]\<rparr>)")
      case (Inl err)
      with save_error[OF Inl] assms v show ?thesis
        by (auto simp: update_def Let_def item_def[symmetric])
    next
      case (Inr st2)
      with save_fields[OF Inr] assms v show ?thesis
        by (auto simp: update_def Let_def item_def[symmetric] notifyListeners_def)
    qed
  qed
qed


lemma records_ok_snoc:
  assumes "records_ok xs" and "is_object x" and "\<forall>y\<in>set xs. get_prop ''id'' y \<noteq> get_prop ''id'' x"
  shows "records_ok (xs @ [x])"
  using assms by (auto simp: records_ok_def unique_ids_def)

lemma create_cases:
  assumes "create e st d = (out, st')"
  shows "st' = st \<or>
         (\<exists>newId. truthy newId \<and> \<not> truthy (getById st newId) \<and>
            data st' = data st @ [JObj (set_prop ''updatedAt'' (JStr (now e 1))
                               (set_prop ''createdAt'' (JStr (now e 0))
                                 (set_prop ''id'' newId (spread [] d))))])"
proof (cases "(if validation st then validateData st d else Inr ())")
  case (Inl err)
  with assms show ?thesis by (simp add: create_def)
next
  case v: (Inr u)
  show ?thesis
  proof (cases "get_prop ''id'' d")
    case (Inl err)
    with v assms show ?thesis by (simp add: create_def)
  next
    case g: (Inr given)
    define newId where "newId = (if truthy given then given else JStr (generateId e))"
    define item where "item = JObj (set_prop ''updatedAt'' (JStr (now e 1))
                               (set_prop ''createdAt'' (JStr (now e 0))
                                 (set_prop ''id'' newId (spread [] d))))"
    have t: "truthy newId" by (simp add: newId_def generateId_def)
    show ?thesis
    proof (cases "truthy (getById st newId)")
      case True
      with v g assms show ?thesis by (simp add: create_def Let_def newId_def)
    next
      case False
      have "data st' = data st @ [item]"
      proof (cases "save e (st\<lparr>data := data st @ [item]\<rparr>)")
        case (Inl err)
        with v g False assms show ?thesis
          by (auto simp: create_def Let_def newId_def[symmetric] item_def)
      next
        case (Inr st2)
        with save_fields[OF Inr] v g False assms show ?thesis
          by (auto simp: create_def Let_def newId_def[symmetric] item_def notifyListeners_def)
      qed
      with t False show ?thesis unfolding item_def by blast
    qed
  qed
qed

lemma getById_absent:
  assumes "list_all is_object (data st)" and "\<not> truthy (getById st i)"
  shows "\<forall>x\<in>set (data st). get_prop ''id'' x \<noteq> Inr i"
proof -
  from findIndex_objects[OF assms(1)] obtain r where r: "findIndex i (data st) = Inr r" by blast
  show ?thesis
  proof (cases r)
    case None
    with r findIndex_None show ?thesis by blast
  next
    case (Some n)
    with r findIndex_Some have "n < length (data st)" by blast
    with assms(1) have "is_object (data st ! n)" by (simp add: list_all_length)
    then have "truthy (data st ! n)" by (cases "data st ! n") auto
    with r Some assms(2) show ?thesis by (simp add: getById_def)
  qed
qed

lemma create_preserves:
  assumes "records_ok (data st)"
  shows "records_ok (data (snd (create e st d)))"
proof -
  obtain out st' where c: "create e st d = (out, st')" by (cases "create e st d")
  from create_cases[OF c] show ?thesis
  proof
    assume "st' = st"
    with c assms show ?thesis by simp
  next
    assume "\<exists>newId. truthy newId \<and> \<not> truthy (getById st newId) \<and>
            data st' = data st @ [JObj (set_prop ''updatedAt'' (JStr (now e 1))
                               (set_prop ''createdAt'' (JStr (now e 0))
                                 (set_prop ''id'' newId (spread [] d))))]"
    then obtain newId where nd: "\<not> truthy (getById st newId)"
      and d': "data st' = data st @ [JObj (set_prop ''updatedAt'' (JStr (now e 1))
                               (set_prop ''createdAt'' (JStr (now e 0))
                                 (set_prop ''id'' newId (spread [] d))))]"
      by (elim exE conjE)
    from assms have objs: "list_all is_object (data st)" by (simp add: records_ok_def)
    have "records_ok (data st')"
      unfolding d'
    proof (rule records_ok_snoc[OF assms])
      show "is_object (JObj (set_prop ''updatedAt'' (JStr (now e 1))
                               (set_prop ''createdAt'' (JStr (now e 0))
                                 (set_prop ''id'' newId (spread [] d)))))" by simp
      show "\<forall>y\<in>set (data st). get_prop ''id'' y \<noteq> get_prop ''id'' (JObj (set_prop ''updatedAt'' (JStr (now e 1))
                               (set_prop ''createdAt'' (JStr (now e 0))
                                 (set_prop ''id'' newId (spread [] d)))))"
        using getById_absent[OF objs nd] by (simp add: lookup_set_prop)
    qed
    with c show ?thesis by simp
  qed
qed

lemma update_preserves:
  assumes "records_ok (data st)"
  shows "records_ok (data (snd (update e st i u)))"
proof -
  obtain out st' where c: "update e st i u = (out, st')" by (cases "update e st i u")
  from assms findIndex_objects[of "data st" i] obtain r where r: "findIndex i (data st) = Inr r"
    by (auto simp: records_ok_def)
  show ?thesis
  proof (cases r)
    case None
    with c r have "st' = st" by (simp add: update_def)
    with c assms show ?thesis by simp
  next
    case (Some n)
    define item where "item = JObj (set_prop ''updatedAt'' (JStr (now e 0))
                              (set_prop ''id'' i (spread (spread [] (data st ! n)) u)))"
    from findIndex_Some[OF r[unfolded Some]] have lt: "n < length (data st)"
      and idn: "get_prop ''id'' (data st ! n) = Inr i" by auto
    have idr: "get_prop ''id'' item = Inr i" by (simp add: item_def lookup_set_prop)
    have ids: "map (get_prop ''id'') ((data st)[n := item]) = map (get_prop ''id'') (data st)"
      using idr idn lt by (simp add: map_update list_update_same_conv)
    have "list_all is_object ((data st)[n := item])"
      using assms by (auto simp: records_ok_def list_all_iff item_def dest: set_update_subset_insert[THEN subsetD])
    with ids assms have ok: "records_ok ((data st)[n := item])"
      by (simp add: records_ok_def unique_ids_def)
    from update_cases[OF c r[unfolded Some]] have "st' = st \<or> data st' = (data st)[n := item]"
      unfolding item_def by blast
    with ok assms c show ?thesis by auto
  qed
qed

lemma records_ok_remove:
  assumes "records_ok xs"
  shows "records_ok (take n xs @ drop (Suc n) xs)"
proof -
  have d: "distinct (map (get_prop ''id'') xs)"
    using assms by (simp add: records_ok_def unique_ids_def)
  have "distinct (take n (map (get_prop ''id'') xs) @ drop (Suc n) (map (get_prop ''id'') xs))"
    using d set_take_disj_set_drop_if_distinct[OF d, of n "Suc n"] by simp
  then have "distinct (map (get_prop ''id'') (take n xs @ drop (Suc n) xs))"
    by (simp add: take_map drop_map)
  moreover have "list_all is_object (take n xs @ drop (Suc n) xs)"
    using assms unfolding records_ok_def list_all_iff
    by (auto dest: in_set_takeD in_set_dropD)
  ultimately show ?thesis by (simp add: records_ok_def unique_ids_def)
qed

lemma delete_preserves:
  assumes "records_ok (data st)"
  shows "records_ok (data (snd (delete e st i)))"
proof (cases "findIndex i (data st)")
  case (Inl err)
  with assms show ?thesis by (simp add: delete_def)
next
  case (Inr r)
  show ?thesis
  proof (cases r)
    case None
    with Inr assms show ?thesis by (simp add: delete_def)
  next
    case (Some n)
    show ?thesis
    proof (cases "save e (st\<lparr>data := take n (data st) @ drop (Suc n) (data st)\<rparr>)")
      case sv: (Inl err)
      with Inr Some records_ok_remove[OF assms, of n] show ?thesis
        by (simp add: delete_def Let_def)
    next
      case sv: (Inr st2)
      with save_fields[OF sv] Inr Some records_ok_remove[OF assms, of n] show ?thesis
        by (simp add: delete_def Let_def notifyListeners_def)
    qed
  qed
qed

lemma clear_preserves: "records_ok (data (snd (clear e st)))"
proof (cases "save e (st\<lparr>data := []\<rparr>)")
  case (Inl err)
  then show ?thesis by (simp add: clear_def Let_def records_ok_def unique_ids_def)
next
  case (Inr st2)
  with save_fields[OF Inr] show ?thesis
    by (simp add: clear_def Let_def records_ok_def unique_ids_def notifyListeners_def)
qed

lemma get_prop_id_stamped:
  "is_object x \<Longrightarrow>
     get_prop ''id'' (JObj (set_prop ''updatedAt'' t (spread [] x))) = get_prop ''id'' x"
  by (cases x) (simp_all add: lookup_set_prop lookup_spread split: option.splits)

lemma validatedItems_ids:
  assumes "validatedItems e st k items = Inr vs" and "list_all is_object items"
  shows "list_all is_object vs \<and> map (get_prop ''id'') vs = map (get_prop ''id'') items"
  using assms
proof (induction items arbitrary: k vs)
  case Nil
  then show ?case by simp
next
  case (Cons x xs)
  from Cons.prems(1) obtain rest where rest: "validatedItems e st (Suc k) xs = Inr rest"
    and vs: "vs = JObj (set_prop ''updatedAt'' (JStr (now e k)) (spread [] x)) # rest"
    by (auto split: sum.splits)
  from Cons.IH[OF rest] Cons.prems(2)
  have "list_all is_object rest \<and> map (get_prop ''id'') rest = map (get_prop ''id'') xs" by simp
  moreover from Cons.prems(2) have "is_object x" by simp
  ultimately show ?case unfolding vs
    using get_prop_id_stamped[of x "JStr (now e k)"] by simp
qed

lemma bulkUpdate_preserves:
  assumes "records_ok (data st)" and "records_ok items"
  shows "records_ok (data (snd (bulkUpdate e st items)))"
proof (cases "validatedItems e st 0 items")
  case (Inl err)
  with assms show ?thesis by (simp add: bulkUpdate_def bulkUpdate_try_def)
next
  case (Inr vs)
  from validatedItems_ids[OF Inr] assms(2) have ok: "records_ok vs"
    by (simp add: records_ok_def unique_ids_def)
  show ?thesis
  proof (cases "save e (st\<lparr>data := vs\<rparr>)")
    case sv: (Inl err)
    with Inr ok show ?thesis by (simp add: bulkUpdate_def bulkUpdate_try_def Let_def)
  next
    case sv: (Inr st2)
    with save_fields[OF sv] Inr ok show ?thesis
      by (simp add: bulkUpdate_def bulkUpdate_try_def Let_def notifyListeners_def)
  qed
qed

lemma import_replace_cases:
  assumes "import e st snap False = (out, st')"
  shows "st' = st \<or> (\<exists>incoming. get_prop ''data'' snap = Inr (JArr incoming) \<and> data st' = incoming)"
proof (cases "truthy snap")
  case False
  with assms show ?thesis by (simp add: import_def)
next
  case True
  show ?thesis
  proof (cases "get_prop ''data'' snap")
    case (Inl err)
    with True assms show ?thesis by (simp add: import_def)
  next
    case (Inr d)
    show ?thesis
    proof (cases "\<exists>incoming. d = JArr incoming")
      case False
      with True Inr assms show ?thesis by (cases d) (simp_all add: import_def)
    next
      case isarr: True
      then obtain incoming where d: "d = JArr incoming" by blast
      have "import e st snap False = import_finish e (st\<lparr>data := incoming\<rparr>)"
        using True Inr d by (simp add: import_def)
      with assms import_finish_data[of e "st\<lparr>data := incoming\<rparr>"] have "data st' = incoming"
        by simp
      with Inr d show ?thesis by blast
    qed
  qed
qed

lemma map_filter_disjoint:
  "set (map f xs) \<inter> set (map f (filter (\<lambda>x. f x \<notin> set (map f xs)) ys)) = {}"
proof -
  have "y \<notin> set (map f xs)" if "y \<in> set (map f (filter (\<lambda>x. f x \<notin> set (map f xs)) ys))" for y
  proof -
    from that obtain x where "x \<in> set ys" "f x \<notin> set (map f xs)" "y = f x" by auto
    then show ?thesis by simp
  qed
  then show ?thesis by (meson disjoint_iff)
qed

lemma records_ok_merge:
  assumes "records_ok xs" and "records_ok ys"
  shows "records_ok (xs @ filter (\<lambda>x. get_prop ''id'' x \<notin> set (map (get_prop ''id'') xs)) ys)"
proof -
  have d: "distinct (map (get_prop ''id'') (filter (\<lambda>x. get_prop ''id'' x \<notin> set (map (get_prop ''id'') xs)) ys))"
    using assms(2) by (simp add: records_ok_def unique_ids_def distinct_map_filter)
  have dis: "set (map (get_prop ''id'') xs) \<inter>
        set (map (get_prop ''id'') (filter (\<lambda>x. get_prop ''id'' x \<notin> set (map (get_prop ''id'') xs)) ys)) = {}"
    by (rule map_filter_disjoint)
  have "distinct (map (get_prop ''id'') xs @
        map (get_prop ''id'') (filter (\<lambda>x. get_prop ''id'' x \<notin> set (map (get_prop ''id'') xs)) ys))"
    using assms(1) d dis by (simp add: records_ok_def unique_ids_def)
  moreover have "list_all is_object (xs @ filter (\<lambda>x. get_prop ''id'' x \<notin> set (map (get_prop ''id'') xs)) ys)"
    using assms by (auto simp: records_ok_def list_all_iff)
  ultimately show ?thesis by (simp add: records_ok_def unique_ids_def)
qed

lemma import_preserves:
  assumes "records_ok (data st)"
    and "\<forall>incoming. get_prop ''data'' snap = Inr (JArr incoming) \<longrightarrow> records_ok incoming"
  shows "records_ok (data (snd (import e st snap merge)))"
proof -
  obtain out st' where c: "import e st snap merge = (out, st')" by (cases "import e st snap merge")
  have "records_ok (data st')"
  proof (cases merge)
    case True
    with c have "import e st snap True = (out, st')" by simp
    from import_merge_cases[OF this] show ?thesis
      using assms records_ok_merge[OF assms(1)] by auto
  next
    case False
    with c have "import e st snap False = (out, st')" by simp
    from import_replace_cases[OF this] show ?thesis
      using assms by auto
  qed
  with c show ?thesis by simp
qed


section \<open>Serialising and parsing\<close>

lemma cons_char_Parsed [simp]: "cons_char c (Parsed (s, r)) = Parsed (c # s, r)"
  by (simp add: cons_char_def)


lemma char_of_nibbles: "char_of (16 * ((of_char c :: nat) div 16) + of_char c mod 16) = c"
  by simp


















lemma read_nat_Nil [simp]: "read_nat [] = 0"
  by (simp add: read_nat_def)















lemma skip_ws_follow: "follow_ok rest \<Longrightarrow> skip_ws rest = rest"
  by (cases rest) (auto simp: follow_ok_def skip_ws_def is_ws_def)


















lemma defined_not_undefined: "defined v \<Longrightarrow> v \<noteq> JUndefined"
  by auto



lemma follow_ok_simps [simp]:
  "follow_ok (CHR '','' # r)" "follow_ok (CHR '']'' # r)" "follow_ok (CHR ''}'' # r)" "follow_ok []"
  by (simp_all add: follow_ok_def)



text \<open>
  The bound on nested calls never decides the result: a call consumes at least one
  character of its text, so every bound above the length of the text gives the same answer.
\<close>

lemma skip_ws_length: "length (skip_ws s) \<le> length s"
  by (simp add: skip_ws_def length_dropWhile_le)

lemma skip_ws_ConsD: "skip_ws s = c # cs \<Longrightarrow> length cs < length s"
  using skip_ws_length[of s] by simp

lemma cons_char_ParsedD:
  "cons_char c p = Parsed (s, r) \<Longrightarrow> \<exists>s'. p = Parsed (s', r)"
  by (cases p) (auto simp: cons_char_def)

lemma parse_chars_shorter: "parse_chars cs = Parsed (s, r) \<Longrightarrow> length r < length cs"
proof (induction "length cs" arbitrary: cs s rule: less_induct)
  case less
  from less.prems obtain c cs' where cs: "cs = c # cs'" by (cases cs) auto
  show ?case
  proof (cases "c = CHR 0x22")
    case True
    with less.prems cs show ?thesis by simp
  next
    case nq: False
    show ?thesis
    proof (cases "c = CHR 0x5C")
      case False
      with nq less.prems cs have "cons_char c (parse_chars cs') = Parsed (s, r)"
        by (auto split: if_splits)
      from cons_char_ParsedD[OF this] obtain s' where "parse_chars cs' = Parsed (s', r)" by blast
      from less.hyps[OF _ this] cs show ?thesis by simp
    next
      case bsl: True
      with nq less.prems cs obtain e r0 where cs': "cs' = e # r0"
        by (cases cs') auto
      show ?thesis
      proof (cases "e = CHR ''u''")
        case False
        with nq bsl cs cs' less.prems obtain ch where
          "cons_char ch (parse_chars r0) = Parsed (s, r)"
          by (auto split: option.splits)
        from cons_char_ParsedD[OF this] obtain s' where "parse_chars r0 = Parsed (s', r)" by blast
        from less.hyps[OF _ this] cs cs' show ?thesis by simp
      next
        case True
        with nq bsl cs cs' less.prems obtain h1 h2 h3 h4 r' ch where
          r0: "r0 = h1 # h2 # h3 # h4 # r'"
          and cc: "cons_char ch (parse_chars r') = Parsed (s, r)"
          by (auto split: list.splits option.splits if_splits)
        from cons_char_ParsedD[OF cc] obtain s' where p: "parse_chars r' = Parsed (s', r)" by blast
        from less.hyps[OF _ p] cs cs' r0 show ?thesis by simp
      qed
    qed
  qed
qed

lemma dropWhile_tl_length: "length (dropWhile P (tl s)) \<le> length s"
proof -
  have "length (dropWhile P (tl s)) \<le> length (tl s)" by (rule length_dropWhile_le)
  then show ?thesis by simp
qed

lemma parse_fraction_shorter: "parse_fraction r = Some (fr, r') \<Longrightarrow> length r' \<le> length r"
  using dropWhile_tl_length[of is_digit r]
  by (auto simp: parse_fraction_def split: if_splits)

lemma parse_exponent_shorter:
  assumes "parse_exponent r = Some (eneg, ex, r')"
  shows "length r' \<le> length r"
proof (cases "r \<noteq> [] \<and> hd r \<in> set ''eE''")
  case False
  with assms show ?thesis by (auto simp: parse_exponent_def)
next
  case True
  define r1 where "r1 = tl r"
  define r2 where "r2 = (if r1 \<noteq> [] \<and> hd r1 \<in> set ''+-'' then tl r1 else r1)"
  from True assms have "r' = dropWhile is_digit r2"
    unfolding parse_exponent_def Let_def r1_def[symmetric] r2_def[symmetric]
    by (simp split: if_splits)
  moreover have "length (dropWhile is_digit r2) \<le> length r2" by (rule length_dropWhile_le)
  moreover have "length r2 \<le> length r1" by (simp add: r2_def)
  moreover have "length r1 \<le> length r" by (simp add: r1_def)
  ultimately show ?thesis by simp
qed

lemma parse_number_shorter: "parse_number s = Parsed (v, r) \<Longrightarrow> length r < length s"
proof -
  assume a: "parse_number s = Parsed (v, r)"
  define s1 where "s1 = (if s \<noteq> [] \<and> hd s = CHR ''-'' then tl s else s)"
  from a have ne: "takeWhile is_digit s1 \<noteq> []"
    unfolding parse_number_def Let_def s1_def[symmetric] by (auto split: if_splits)
  from a obtain fr r2 where pf: "parse_fraction (dropWhile is_digit s1) = Some (fr, r2)"
    unfolding parse_number_def Let_def s1_def[symmetric]
    by (cases "parse_fraction (dropWhile is_digit s1)") (auto split: if_splits)
  from a ne pf obtain eneg ex r3 where pe: "parse_exponent r2 = Some (eneg, ex, r3)"
    unfolding parse_number_def Let_def s1_def[symmetric]
    by (cases "parse_exponent r2") (auto split: if_splits)
  from a ne pf pe have r: "r = r3"
    unfolding parse_number_def Let_def s1_def[symmetric]
    by (auto split: if_splits option.splits)
  have "length (takeWhile is_digit s1) + length (dropWhile is_digit s1) = length s1"
    by (metis length_append takeWhile_dropWhile_id)
  with ne have "length (dropWhile is_digit s1) < length s1" by (cases "takeWhile is_digit s1") auto
  moreover have "length s1 \<le> length s" by (simp add: s1_def)
  ultimately show ?thesis
    using parse_fraction_shorter[OF pf] parse_exponent_shorter[OF pe] r by simp
qed

lemma parse_literal_shorter:
  "w \<noteq> [] \<Longrightarrow> parse_literal w x s = Parsed (v, r) \<Longrightarrow> length r < length s"
proof -
  assume w: "w \<noteq> []" and a: "parse_literal w x s = Parsed (v, r)"
  then have t: "take (length w) s = w" and r: "r = drop (length w) s"
    by (auto simp: parse_literal_def split: if_splits)
  from t w have "s \<noteq> []" by auto
  with r w show ?thesis by (cases w; cases s) auto
qed

lemma parse_shorter:
  "(\<forall>s v r. parse_value f s = Parsed (v, r) \<longrightarrow> length r < length s) \<and>
   (\<forall>s vs r. parse_elems f s = Parsed (vs, r) \<longrightarrow> length r < length s) \<and>
   (\<forall>s ps r. parse_members f s = Parsed (ps, r) \<longrightarrow> length r < length s)"
proof (induction f)
  case 0
  then show ?case by simp
next
  case (Suc f)
  then have E: "\<And>s vs r. parse_elems f s = Parsed (vs, r) \<Longrightarrow> length r < length s"
    and M: "\<And>s ps r. parse_members f s = Parsed (ps, r) \<Longrightarrow> length r < length s"
    by blast+
  have V: "length r < length s" if p: "parse_value (Suc f) s = Parsed (v, r)" for s v r
  proof -
    from p obtain c cs where c: "skip_ws s = c # cs" by (cases "skip_ws s") auto
    from skip_ws_ConsD[OF c] have l: "length cs < length s" .
    have l': "length (c # cs) \<le> length s" using l by simp
    consider (str) "c = CHR 0x22" | (arr) "c = CHR ''[''" | (obj) "c = CHR ''{''"
      | (t) "c = CHR ''t''" | (f) "c = CHR ''f''" | (n) "c = CHR ''n''"
      | (num) "c \<noteq> CHR 0x22" "c \<noteq> CHR ''[''" "c \<noteq> CHR ''{''" "c \<noteq> CHR ''t''" "c \<noteq> CHR ''f''"
          "c \<noteq> CHR ''n''"
      by blast
    then show ?thesis
    proof cases
      case str
      with p c obtain x where "parse_chars cs = Parsed (x, r)"
        by (auto split: parsed.splits)
      from parse_chars_shorter[OF this] l show ?thesis by simp
    next
      case arr
      with p c obtain d r1 where d: "skip_ws cs = d # r1" by (cases "skip_ws cs") auto
      show ?thesis
      proof (cases "d = CHR '']''")
        case True
        with p c arr d have "r = r1" by simp
        with skip_ws_ConsD[OF d] l show ?thesis by simp
      next
        case False
        with p c arr d obtain vs where "parse_elems f cs = Parsed (vs, r)"
          by (auto split: parsed.splits)
        from E[OF this] l show ?thesis by simp
      qed
    next
      case obj
      with p c obtain d r1 where d: "skip_ws cs = d # r1" by (cases "skip_ws cs") auto
      show ?thesis
      proof (cases "d = CHR ''}''")
        case True
        with p c obj d have "r = r1" by simp
        with skip_ws_ConsD[OF d] l show ?thesis by simp
      next
        case False
        with p c obj d obtain ps where "parse_members f cs = Parsed (ps, r)"
          by (auto split: parsed.splits if_splits)
        from M[OF this] l show ?thesis by simp
      qed
    next
      case t
      with p c have "parse_literal ''true'' (JBool True) (c # cs) = Parsed (v, r)" by simp
      from parse_literal_shorter[OF _ this] l' show ?thesis by simp
    next
      case f
      with p c have "parse_literal ''false'' (JBool False) (c # cs) = Parsed (v, r)" by simp
      from parse_literal_shorter[OF _ this] l' show ?thesis by simp
    next
      case n
      with p c have "parse_literal ''null'' JNull (c # cs) = Parsed (v, r)" by simp
      from parse_literal_shorter[OF _ this] l' show ?thesis by simp
    next
      case num
      with p c have "parse_number (c # cs) = Parsed (v, r)" by (auto split: if_splits)
      from parse_number_shorter[OF this] l' show ?thesis by simp
    qed
  qed
  have E': "length r < length s" if p: "parse_elems (Suc f) s = Parsed (vs, r)" for s vs r
  proof -
    from p obtain v r0 where v: "parse_value (Suc f) s = Parsed (v, r0)"
      by (auto split: parsed.splits)
    from p v obtain d r' where d: "skip_ws r0 = d # r'" by (cases "skip_ws r0") auto
    have l: "length r' < length s" using V[OF v] skip_ws_ConsD[OF d] by simp
    show ?thesis
    proof (cases "d = CHR '',''")
      case True
      with p v d obtain vs' where "parse_elems f r' = Parsed (vs', r)"
        by (auto split: parsed.splits)
      from E[OF this] l show ?thesis by simp
    next
      case False
      with p v d have "r = r'" by (auto split: if_splits)
      with l show ?thesis by simp
    qed
  qed
  have M': "length r < length s" if p: "parse_members (Suc f) s = Parsed (ps, r)" for s ps r
  proof -
    from p obtain q cs where q: "skip_ws s = q # cs" by (cases "skip_ws s") auto
    with p have qq: "q = CHR 0x22" by (auto split: if_splits)
    from p q qq obtain k r0 where k: "parse_chars cs = Parsed (k, r0)"
      by (auto split: parsed.splits)
    from p q qq k obtain col r1 where col: "skip_ws r0 = col # r1" by (cases "skip_ws r0") auto
    with p q qq k have cc: "col = CHR '':''" by (auto split: if_splits)
    from p q qq k col cc obtain v r2 where v: "parse_value (Suc f) r1 = Parsed (v, r2)"
      by (auto split: parsed.splits)
    from p q qq k col cc v obtain d r3 where d: "skip_ws r2 = d # r3" by (cases "skip_ws r2") auto
    have l: "length r3 < length s"
      using skip_ws_ConsD[OF q] parse_chars_shorter[OF k] skip_ws_ConsD[OF col] V[OF v]
        skip_ws_ConsD[OF d] by simp
    show ?thesis
    proof (cases "d = CHR '',''")
      case True
      with p q qq k col cc v d obtain ps' where "parse_members f r3 = Parsed (ps', r)"
        by (auto split: parsed.splits)
      from M[OF this] l show ?thesis by simp
    next
      case False
      with p q qq k col cc v d have "r = r3" by (auto split: if_splits)
      with l show ?thesis by simp
    qed
  qed
  from V E' M' show ?case by blast
qed

lemma parse_fuel:
  "(\<forall>g s. length s < f \<and> length s < g \<longrightarrow> parse_value f s = parse_value g s) \<and>
   (\<forall>g s. length s < f \<and> length s < g \<longrightarrow> parse_elems f s = parse_elems g s) \<and>
   (\<forall>g s. length s < f \<and> length s < g \<longrightarrow> parse_members f s = parse_members g s)"
proof (induction f)
  case 0
  show ?case by (intro conjI allI impI; elim conjE) simp_all
next
  case (Suc f)
  then have E: "\<And>g s. length s < f \<Longrightarrow> length s < g \<Longrightarrow> parse_elems f s = parse_elems g s"
    and M: "\<And>g s. length s < f \<Longrightarrow> length s < g \<Longrightarrow> parse_members f s = parse_members g s"
    by blast+
  have V: "parse_value (Suc f) s = parse_value g s" if l: "length s < Suc f" "length s < g" for g s
  proof -
    from l(2) obtain g' where g: "g = Suc g'" by (cases g) auto
    show ?thesis
    proof (cases "skip_ws s")
      case Nil
      show ?thesis unfolding g parse_value.simps(2) Nil list.case by (rule refl)
    next
      case (Cons c cs)
      from skip_ws_ConsD[OF Cons] l g have "length cs < f" "length cs < g'" by simp_all
      then have e: "parse_elems f cs = parse_elems g' cs"
        and m: "parse_members f cs = parse_members g' cs"
        using E M by blast+
      show ?thesis unfolding g parse_value.simps(2) Cons list.case e m by (rule refl)
    qed
  qed
  have E': "parse_elems (Suc f) s = parse_elems g s" if l: "length s < Suc f" "length s < g" for g s
  proof -
    from l(2) obtain g' where g: "g = Suc g'" by (cases g) auto
    have v: "parse_value (Suc f) s = parse_value (Suc g') s"
    proof (rule V)
      show "length s < Suc f" by (rule l(1))
      show "length s < Suc g'" using l(2) g by (simp only:)
    qed
    show ?thesis
    proof (cases "parse_value (Suc g') s")
      case (Parsed x)
      obtain w r0 where x: "x = (w, r0)" by (cases x)
      from parse_shorter[of "Suc g'"] Parsed x have r0: "length r0 < length s" by blast
      show ?thesis
      proof (cases "skip_ws r0")
        case Nil
        show ?thesis
          unfolding g parse_elems.simps(2) v Parsed x parsed.case prod.case Nil list.case
          by (rule refl)
      next
        case (Cons d r')
        from skip_ws_ConsD[OF Cons] r0 l g have "length r' < f" "length r' < g'" by simp_all
        then have e: "parse_elems f r' = parse_elems g' r'" using E by blast
        show ?thesis
          unfolding g parse_elems.simps(2) v Parsed x parsed.case prod.case Cons list.case e
          by (rule refl)
      qed
    next
      case SyntaxError
      show ?thesis unfolding g parse_elems.simps(2) v SyntaxError parsed.case by (rule refl)
    next
      case Unmodelled
      show ?thesis unfolding g parse_elems.simps(2) v Unmodelled parsed.case by (rule refl)
    qed
  qed
  have M': "parse_members (Suc f) s = parse_members g s" if l: "length s < Suc f" "length s < g" for g s
  proof -
    from l(2) obtain g' where g: "g = Suc g'" by (cases g) auto
    show ?thesis
    proof (cases "skip_ws s")
      case Nil
      show ?thesis unfolding g parse_members.simps(2) Nil list.case by (rule refl)
    next
      case q: (Cons q cs)
      show ?thesis
      proof (cases "parse_chars cs")
        case (Parsed x)
        obtain k r0 where x: "x = (k, r0)" by (cases x)
        show ?thesis
        proof (cases "skip_ws r0")
          case Nil
          show ?thesis
            unfolding g parse_members.simps(2) q list.case Parsed x parsed.case prod.case Nil
            by (rule refl)
        next
          case col: (Cons col r1)
          have l1: "length r1 < length s"
            using skip_ws_ConsD[OF q] parse_chars_shorter[OF Parsed[unfolded x]] skip_ws_ConsD[OF col]
            by simp
          have v: "parse_value (Suc f) r1 = parse_value (Suc g') r1"
          proof (rule V)
            show "length r1 < Suc f" using l1 l by linarith
            show "length r1 < Suc g'" using l1 l g by linarith
          qed
          show ?thesis
          proof (cases "parse_value (Suc g') r1")
            case pv: (Parsed y)
            obtain w r2 where y: "y = (w, r2)" by (cases y)
            from parse_shorter[of "Suc g'"] pv y have r2: "length r2 < length r1" by blast
            show ?thesis
            proof (cases "skip_ws r2")
              case Nil
              show ?thesis
                unfolding g parse_members.simps(2) q list.case Parsed x parsed.case prod.case col
                  v pv y Nil
                by (rule refl)
            next
              case d: (Cons d r3)
              from skip_ws_ConsD[OF d] r2 l1 l g have "length r3 < f" "length r3 < g'" by simp_all
              then have m: "parse_members f r3 = parse_members g' r3" using M by blast
              show ?thesis
                unfolding g parse_members.simps(2) q list.case Parsed x parsed.case prod.case col
                  v pv y d m
                by (rule refl)
            qed
          next
            case pv: SyntaxError
            show ?thesis
              unfolding g parse_members.simps(2) q list.case Parsed x parsed.case prod.case col
                v pv
              by (rule refl)
          next
            case pv: Unmodelled
            show ?thesis
              unfolding g parse_members.simps(2) q list.case Parsed x parsed.case prod.case col
                v pv
              by (rule refl)
          qed
        qed
      next
        case SyntaxError
        show ?thesis unfolding g parse_members.simps(2) q list.case SyntaxError parsed.case
          by (rule refl)
      next
        case Unmodelled
        show ?thesis unfolding g parse_members.simps(2) q list.case Unmodelled parsed.case
          by (rule refl)
      qed
    qed
  qed
  show ?case
  proof (intro conjI allI impI)
    fix g and s :: string
    assume a: "length s < Suc f \<and> length s < g"
    show "parse_value (Suc f) s = parse_value g s"
      by (rule V) (rule conjunct1[OF a], rule conjunct2[OF a])
  next
    fix g and s :: string
    assume a: "length s < Suc f \<and> length s < g"
    show "parse_elems (Suc f) s = parse_elems g s"
      by (rule E') (rule conjunct1[OF a], rule conjunct2[OF a])
  next
    fix g and s :: string
    assume a: "length s < Suc f \<and> length s < g"
    show "parse_members (Suc f) s = parse_members g s"
      by (rule M') (rule conjunct1[OF a], rule conjunct2[OF a])
  qed
qed

lemma parse_value_fuel:
  "length s < f \<Longrightarrow> parse_value f s = parse_value (Suc (length s)) s"
proof -
  assume "length s < f"
  moreover have "length s < Suc (length s)" by simp
  ultimately show ?thesis using parse_fuel[of f] by blast
qed

section \<open>Evaluating the concrete store\<close>

lemmas example_defs =
  example_store_def example_env_def example_record_def example_new_def required_name_def

lemmas store_defs =
  create_def update_def delete_def clear_def bulkUpdate_def bulkUpdate_try_def import_def
  import_finish_def export_def validateData_def getById_def getAll_def count_def spread_def
  set_prop_def save_def notifyListeners_def records_ok_def unique_ids_def Let_def

lemma example_store_ok: "records_ok (data example_store)"
  by (simp add: example_defs store_defs)

lemma example_generateId: "generateId example_env = ''1714557600000_k3x9q2m1z''"
  by (simp add: generateId_def example_env_def show_nat.simps digit_char_def)

section \<open>The claims\<close>

subsection \<open>C1: identifiers stay unique\<close>

text \<open>
  C1, as amended. In a store whose entries are all objects with pairwise different
  \<^verbatim>\<open>id\<close>s, \<^verbatim>\<open>create\<close>, \<^verbatim>\<open>update\<close>, \<^verbatim>\<open>delete\<close> and \<^verbatim>\<open>clear\<close> leave a store of
  that kind, whatever the outcome of the call. \<^verbatim>\<open>bulkUpdate\<close> and \<^verbatim>\<open>import\<close> (with or
  without merge) do so when the records handed in are themselves objects with pairwise
  different \<^verbatim>\<open>id\<close>s: they take the sequence as given and check no identifier.
\<close>

theorem mutations_preserve_unique_ids:
  assumes "records_ok (data st)"
  shows "records_ok (data (snd (create e st d))) \<and>
         records_ok (data (snd (update e st i u))) \<and>
         records_ok (data (snd (delete e st i))) \<and>
         records_ok (data (snd (clear e st))) \<and>
         (records_ok items \<longrightarrow> records_ok (data (snd (bulkUpdate e st items)))) \<and>
         ((\<forall>incoming. get_prop ''data'' snap = Inr (JArr incoming) \<longrightarrow> records_ok incoming) \<longrightarrow>
            records_ok (data (snd (import e st snap merge))))"
  using create_preserves[OF assms] update_preserves[OF assms] delete_preserves[OF assms]
    clear_preserves bulkUpdate_preserves[OF assms] import_preserves[OF assms]
  by (intro conjI impI)


text \<open>
  The claim as stated fails for \<^verbatim>\<open>bulkUpdate\<close>: handed the same record twice, it stores
  both copies.
\<close>

theorem unique_ids_bulkUpdate_counterexample:
  "unique_ids (data example_store) \<and>
   \<not> unique_ids (data (snd (bulkUpdate example_env example_store [example_record, example_record])))"
  by (simp add: example_defs store_defs)

theorem mutations_preserve_unique_ids_witness:
  "records_ok (data example_store) \<and>
   records_ok (data (snd (create example_env example_store example_new))) \<and>
   records_ok (data (snd (update example_env example_store (JStr ''c1'')
                            (JObj [(''name'', JStr ''Acme Ltd'')])))) \<and>
   records_ok (data (snd (delete example_env example_store (JStr ''c1'')))) \<and>
   records_ok (data (snd (clear example_env example_store))) \<and>
   records_ok [example_new] \<and>
   records_ok (data (snd (bulkUpdate example_env example_store [example_new]))) \<and>
   records_ok (data (snd (import example_env example_store
                            (JObj [(''data'', JArr [example_record, example_new])]) True)))"
proof -
  have h: "records_ok (data example_store)" by (rule example_store_ok)
  have i: "records_ok [example_new]" by (simp add: example_defs store_defs)
  have s: "\<forall>incoming.
             get_prop ''data'' (JObj [(''data'', JArr [example_record, example_new])]) = Inr (JArr incoming)
             \<longrightarrow> records_ok incoming"
    by (simp add: example_defs store_defs)
  from mutations_preserve_unique_ids[OF h, of example_env example_new "JStr ''c1''"
      "JObj [(''name'', JStr ''Acme Ltd'')]" "[example_new]"
      "JObj [(''data'', JArr [example_record, example_new])]" True] h i s
  show ?thesis by blast
qed

subsection \<open>C2: a rejected call changes nothing\<close>

text \<open>
  C2, as amended. When \<^verbatim>\<open>create\<close>, \<^verbatim>\<open>update\<close> or \<^verbatim>\<open>import\<close> throws anything but a
  persistence error (a validation, not-found, duplicate-id or import-format error, or the
  \<^verbatim>\<open>TypeError\<close> of reading \<^verbatim>\<open>id\<close> from \<^verbatim>\<open>null\<close>), the exception reaches the caller and the
  whole store is as it was before the call. When the body of \<^verbatim>\<open>bulkUpdate\<close> throws such an
  error, the store is as it was too, but the caller gets the answer \<^verbatim>\<open>false\<close> and no
  exception.
\<close>

theorem rejected_call_leaves_store_unchanged:
  "(create e st d = (Inl err1, st1) \<and> err1 \<noteq> PersistenceError \<longrightarrow> st1 = st) \<and>
   (update e st i u = (Inl err2, st2) \<and> err2 \<noteq> PersistenceError \<longrightarrow> st2 = st) \<and>
   (import e st snap m = (Inl err3, st3) \<and> err3 \<noteq> PersistenceError \<longrightarrow> st3 = st) \<and>
   (bulkUpdate_try e st items = (Inl err4, st4) \<and> err4 \<noteq> PersistenceError \<longrightarrow>
      bulkUpdate e st items = (Inr False, st))"
  by (intro conjI impI; elim conjE)
     (erule (1) create_rejected, erule (1) update_rejected, erule (1) import_rejected,
      erule (1) bulkUpdate_rejected)

text \<open>
  The claim as stated fails for \<^verbatim>\<open>bulkUpdate\<close>: the validation error of its body is
  caught and the method returns \<^verbatim>\<open>false\<close>.
\<close>

theorem bulkUpdate_swallows_validation_error:
  "bulkUpdate_try example_env example_store [JNull] =
     (Inl (ValidationError ''data must be an object''), example_store) \<and>
   bulkUpdate example_env example_store [JNull] = (Inr False, example_store) \<and>
   fst (bulkUpdate example_env example_store [JNull]) \<noteq>
     Inl (ValidationError ''data must be an object'')"
  by (simp add: example_defs store_defs)

theorem rejected_call_leaves_store_unchanged_witness:
  "fst (create example_env example_store (JObj [(''id'', JStr ''c1'')])) =
     Inl (ValidationError ''missing required field: name'') \<and>
   snd (create example_env example_store (JObj [(''id'', JStr ''c1'')])) = example_store \<and>
   fst (update example_env example_store (JStr ''zz'') (JObj [])) = Inl (NotFoundError (JStr ''zz'')) \<and>
   snd (update example_env example_store (JStr ''zz'') (JObj [])) = example_store \<and>
   fst (import example_env example_store (JStr ''no snapshot'') False) = Inl ImportFormatError \<and>
   snd (import example_env example_store (JStr ''no snapshot'') False) = example_store \<and>
   fst (bulkUpdate_try example_env example_store [JNull]) =
     Inl (ValidationError ''data must be an object'') \<and>
   bulkUpdate example_env example_store [JNull] = (Inr False, example_store)"
proof -
  let ?c = "create example_env example_store (JObj [(''id'', JStr ''c1'')])"
  let ?u = "update example_env example_store (JStr ''zz'') (JObj [])"
  let ?i = "import example_env example_store (JStr ''no snapshot'') False"
  let ?b = "bulkUpdate_try example_env example_store [JNull]"
  have c: "fst ?c = Inl (ValidationError ''missing required field: name'')"
    by (simp add: example_defs store_defs)
  have u: "fst ?u = Inl (NotFoundError (JStr ''zz''))"
    by (simp add: example_defs store_defs)
  have i: "fst ?i = Inl ImportFormatError"
    by (simp add: example_defs store_defs)
  have b: "fst ?b = Inl (ValidationError ''data must be an object'')"
    by (simp add: example_defs store_defs)
  have hc: "?c = (Inl (ValidationError ''missing required field: name''), snd ?c)"
    using c by (metis prod.collapse)
  have hu: "?u = (Inl (NotFoundError (JStr ''zz'')), snd ?u)"
    using u by (metis prod.collapse)
  have hi: "?i = (Inl ImportFormatError, snd ?i)"
    using i by (metis prod.collapse)
  have hb: "?b = (Inl (ValidationError ''data must be an object''), snd ?b)"
    using b by (metis prod.collapse)
  from rejected_call_leaves_store_unchanged[of example_env example_store
      "JObj [(''id'', JStr ''c1'')]" "ValidationError ''missing required field: name''" "snd ?c"
      "JStr ''zz''" "JObj []" "NotFoundError (JStr ''zz'')" "snd ?u"
      "JStr ''no snapshot''" False ImportFormatError "snd ?i"
      "[JNull]" "ValidationError ''data must be an object''" "snd ?b"]
    hc hu hi hb c u i b
  show ?thesis by simp
qed

subsection \<open>C3: who sets \<open>createdAt\<close>\<close>

text \<open>
  C3, as amended. The record that a successful \<^verbatim>\<open>create\<close> returns has \<^verbatim>\<open>createdAt\<close> equal
  to the first reading of the clock, whatever the caller supplied. The record that a
  successful \<^verbatim>\<open>update\<close> returns has the \<^verbatim>\<open>createdAt\<close> of the partial when the partial has
  a property of that name, and the \<^verbatim>\<open>createdAt\<close> of the existing record otherwise: only
  \<^verbatim>\<open>id\<close> and \<^verbatim>\<open>updatedAt\<close> are written after the partial is merged.
\<close>

theorem createdAt_on_create_and_update:
  "(create e st d = (Inr r1, st1) \<longrightarrow> get_prop ''createdAt'' r1 = Inr (JStr (now e 0))) \<and>
   (update e st i u = (Inr r2, st2) \<longrightarrow>
      (\<exists>n. findIndex i (data st) = Inr (Some n) \<and>
           get_prop ''createdAt'' r2 =
             (case lookup ''createdAt'' (own_props u) of
                Some v \<Rightarrow> Inr v
              | None \<Rightarrow> get_prop ''createdAt'' (data st ! n))))"
proof (intro conjI impI)
  assume "create e st d = (Inr r1, st1)"
  from create_success[OF this] obtain given where
    "r1 = JObj (set_prop ''updatedAt'' (JStr (now e 1))
                 (set_prop ''createdAt'' (JStr (now e 0))
                   (set_prop ''id'' (if truthy given then given else JStr (generateId e))
                     (spread [] d))))"
    by (elim exE conjE)
  then show "get_prop ''createdAt'' r1 = Inr (JStr (now e 0))"
    by (simp add: lookup_set_prop)
next
  assume "update e st i u = (Inr r2, st2)"
  from update_success[OF this] obtain n where
    n: "findIndex i (data st) = Inr (Some n)"
    and r: "r2 = JObj (set_prop ''updatedAt'' (JStr (now e 0))
                        (set_prop ''id'' i (spread (spread [] (data st ! n)) u)))"
    by (elim exE conjE)
  from findIndex_Some[OF n] have "get_prop ''id'' (data st ! n) = Inr i" by simp
  then obtain w where w: "get_prop ''createdAt'' (data st ! n) = Inr w"
    by (cases "data st ! n") auto
  have "get_prop ''createdAt'' r2 =
          (case lookup ''createdAt'' (own_props u) of Some v \<Rightarrow> Inr v
           | None \<Rightarrow> get_prop ''createdAt'' (data st ! n))"
    unfolding r
    by (subst field_after_update[OF createdAt_not_index w]) (simp_all add: w split: option.splits)
  with n show "\<exists>n. findIndex i (data st) = Inr (Some n) \<and>
           get_prop ''createdAt'' r2 =
             (case lookup ''createdAt'' (own_props u) of
                Some v \<Rightarrow> Inr v
              | None \<Rightarrow> get_prop ''createdAt'' (data st ! n))"
    by (intro exI[of _ n] conjI)
qed

text \<open>
  The claim as stated fails for \<^verbatim>\<open>update\<close>: a partial with a \<^verbatim>\<open>createdAt\<close> replaces the
  stored one.
\<close>

theorem update_replaces_createdAt_counterexample:
  "get_prop ''createdAt'' (getAll example_store ! 0) = Inr (JStr ''2024-01-01T00:00:00.000Z'') \<and>
   fst (update example_env example_store (JStr ''c1'')
          (JObj [(''createdAt'', JStr ''1999-12-31T00:00:00.000Z'')])) =
     Inr (getAll (snd (update example_env example_store (JStr ''c1'')
          (JObj [(''createdAt'', JStr ''1999-12-31T00:00:00.000Z'')]))) ! 0) \<and>
   get_prop ''createdAt'' (getAll (snd (update example_env example_store (JStr ''c1'')
          (JObj [(''createdAt'', JStr ''1999-12-31T00:00:00.000Z'')]))) ! 0) =
     Inr (JStr ''1999-12-31T00:00:00.000Z'')"
  by (simp add: example_defs store_defs)

theorem createdAt_on_create_and_update_witness:
  "fst (create example_env example_store
          (JObj [(''name'', JStr ''Beta''), (''createdAt'', JStr ''1999-12-31T00:00:00.000Z'')])) =
     Inr (getAll (snd (create example_env example_store
          (JObj [(''name'', JStr ''Beta''), (''createdAt'', JStr ''1999-12-31T00:00:00.000Z'')]))) ! 1) \<and>
   get_prop ''createdAt'' (getAll (snd (create example_env example_store
          (JObj [(''name'', JStr ''Beta''), (''createdAt'', JStr ''1999-12-31T00:00:00.000Z'')]))) ! 1) =
     Inr (JStr ''2024-05-01T10:00:00.000Z'') \<and>
   fst (update example_env example_store (JStr ''c1'') (JObj [(''name'', JStr ''Acme Ltd'')])) =
     Inr (getAll (snd (update example_env example_store (JStr ''c1'')
          (JObj [(''name'', JStr ''Acme Ltd'')]))) ! 0) \<and>
   get_prop ''createdAt'' (getAll (snd (update example_env example_store (JStr ''c1'')
          (JObj [(''name'', JStr ''Acme Ltd'')]))) ! 0) =
     Inr (JStr ''2024-01-01T00:00:00.000Z'')"
proof -
  let ?d = "JObj [(''name'', JStr ''Beta''), (''createdAt'', JStr ''1999-12-31T00:00:00.000Z'')]"
  let ?u = "JObj [(''name'', JStr ''Acme Ltd'')]"
  let ?C = "create example_env example_store ?d"
  let ?U = "update example_env example_store (JStr ''c1'') ?u"
  have g: "generateId \<lparr>now = \<lambda>k. ''2024-05-01T10:00:00.000Z'', date_now = 1714557600000,
              random_suffix = ''k3x9q2m1z'', setItem_ok = \<lambda>k v. True\<rparr> = ''1714557600000_k3x9q2m1z''"
    using example_generateId by (simp add: example_env_def)
  have c: "fst ?C = Inr (getAll (snd ?C) ! 1)"
    by (simp add: example_defs store_defs g)
  have u: "fst ?U = Inr (getAll (snd ?U) ! 0)"
    by (simp add: example_defs store_defs)
  have hc: "?C = (Inr (getAll (snd ?C) ! 1), snd ?C)" using c by (metis prod.collapse)
  have hu: "?U = (Inr (getAll (snd ?U) ! 0), snd ?U)" using u by (metis prod.collapse)
  have f: "findIndex (JStr ''c1'') (data example_store) = Inr (Some 0)"
    by (simp add: example_defs)
  have l: "lookup ''createdAt'' (own_props ?u) = None" by simp
  have o: "get_prop ''createdAt'' (data example_store ! 0) = Inr (JStr ''2024-01-01T00:00:00.000Z'')"
    by (simp add: example_defs)
  have n: "now example_env 0 = ''2024-05-01T10:00:00.000Z''" by (simp add: example_env_def)
  from createdAt_on_create_and_update[of example_env example_store ?d "getAll (snd ?C) ! 1" "snd ?C"
      "JStr ''c1''" ?u "getAll (snd ?U) ! 0" "snd ?U"] hc hu
  have "get_prop ''createdAt'' (getAll (snd ?C) ! 1) = Inr (JStr (now example_env 0))"
    and "\<exists>n. findIndex (JStr ''c1'') (data example_store) = Inr (Some n) \<and>
           get_prop ''createdAt'' (getAll (snd ?U) ! 0) =
             (case lookup ''createdAt'' (own_props ?u) of
                Some v \<Rightarrow> Inr v
              | None \<Rightarrow> get_prop ''createdAt'' (data example_store ! n))"
    by blast+
  with f l o n c u show ?thesis by (auto simp del: own_props.simps)
qed

subsection \<open>C4: export followed by import\<close>

text \<open>
  C4. Importing, without merge, the snapshot that \<^verbatim>\<open>export\<close> makes of a store leaves the
  target store with exactly the record sequence of the source, the same records in the
  same order. This holds for every target, the empty one included; the import is never
  rejected, and the sequence is in place even when the write to the persistence area
  fails afterwards.
\<close>

theorem import_export_roundtrip:
  "getAll (snd (import e2 target (export e1 source) False)) = getAll source \<and>
   (fst (import e2 target (export e1 source) False) = Inr () \<or>
    fst (import e2 target (export e1 source) False) = Inl PersistenceError)"
proof -
  have "import e2 target (export e1 source) False = import_finish e2 (target\<lparr>data := data source\<rparr>)"
    by (simp add: import_def export_def)
  then show ?thesis
    using import_finish_outcome[of e2 "target\<lparr>data := data source\<rparr>"]
    by (simp add: getAll_def import_finish_data)
qed


theorem import_export_roundtrip_witness:
  "getAll (example_store\<lparr>data := []\<rparr>) = [] \<and>
   getAll (snd (import example_env (example_store\<lparr>data := []\<rparr>)
                  (export example_env (example_store\<lparr>data := [example_record, example_new]\<rparr>)) False)) =
     [example_record, example_new]"
  using import_export_roundtrip[of example_env "example_store\<lparr>data := []\<rparr>" example_env
      "example_store\<lparr>data := [example_record, example_new]\<rparr>"]
  by (simp add: getAll_def)

subsection \<open>C5: import with merge\<close>

text \<open>
  C5. After \<^verbatim>\<open>import(snapshot, true)\<close> the records that were in the store are all still
  there, unchanged and in their places, whatever the outcome; and when the import is not
  rejected (it returns, or only the write to the persistence area fails), what follows
  them is exactly the incoming records whose \<^verbatim>\<open>id\<close> no stored record has, in the
  snapshot's order.
\<close>

theorem import_merge_appends_new_only:
  assumes "import e st snapshot True = (out, st')"
  shows "take (length (getAll st)) (getAll st') = getAll st \<and>
         (out = Inr () \<or> out = Inl PersistenceError \<longrightarrow>
            (\<exists>incoming. get_prop ''data'' snapshot = Inr (JArr incoming) \<and>
               getAll st' = getAll st @
                 filter (\<lambda>x. get_prop ''id'' x \<notin> set (map (get_prop ''id'') (getAll st))) incoming))"
  using import_merge_cases[OF assms] by (auto simp: getAll_def)


theorem import_merge_appends_new_only_witness:
  "fst (import example_env example_store
          (JObj [(''data'', JArr [JObj [(''name'', JStr ''Other''), (''id'', JStr ''c1'')], example_new])])
          True) = Inr () \<and>
   getAll (snd (import example_env example_store
          (JObj [(''data'', JArr [JObj [(''name'', JStr ''Other''), (''id'', JStr ''c1'')], example_new])])
          True)) = [example_record, example_new]"
proof -
  let ?snap = "JObj [(''data'', JArr [JObj [(''name'', JStr ''Other''), (''id'', JStr ''c1'')], example_new])]"
  let ?I = "import example_env example_store ?snap True"
  have o: "fst ?I = Inr ()" by (simp add: example_defs store_defs)
  have h: "?I = (Inr (), snd ?I)" using o by (metis prod.collapse)
  from import_merge_appends_new_only[OF h] obtain incoming where
    "get_prop ''data'' ?snap = Inr (JArr incoming)"
    and "getAll (snd ?I) = getAll example_store @
           filter (\<lambda>x. get_prop ''id'' x \<notin> set (map (get_prop ''id'') (getAll example_store))) incoming"
    by blast
  then have "getAll (snd ?I) = [example_record, example_new]"
    by (auto simp: example_defs getAll_def)
  with o show ?thesis by simp
qed

subsection \<open>C6: create with an identifier that is taken\<close>

text \<open>
  C6, as amended. When the data passes validation (or validation is off), carries a
  truthy \<^verbatim>\<open>id\<close>, a record of the store has that \<^verbatim>\<open>id\<close>, and no entry of the store is
  \<^verbatim>\<open>null\<close> or \<^verbatim>\<open>undefined\<close>, then \<^verbatim>\<open>create\<close> throws the duplicate-id error and leaves
  the store, and so its record count, as it was.
\<close>

theorem create_duplicate_id_rejected:
  assumes "validation st \<longrightarrow> validateData st d = Inr ()"
    and "get_prop ''id'' d = Inr i" and "truthy i"
    and "r \<in> set (data st)" and "get_prop ''id'' r = Inr i"
    and "\<forall>x\<in>set (data st). x \<noteq> JNull \<and> x \<noteq> JUndefined"
  shows "create e st d = (Inl (DuplicateIdError i), st) \<and>
         count (snd (create e st d)) = count st"
proof -
  from findIndex_finds[OF assms(6,4,5)] obtain n where n: "findIndex i (data st) = Inr (Some n)"
    by blast
  from findIndex_Some[OF n] have "get_prop ''id'' (data st ! n) = Inr i" by simp
  from truthy_id_is_object[OF this assms(3)] have "truthy (data st ! n)" .
  with n have "truthy (getById st i)" by (simp add: getById_def)
  with assms(1,2,3) have "create e st d = (Inl (DuplicateIdError i), st)"
    by (auto simp: create_def Let_def)
  then show ?thesis by simp
qed


text \<open>
  The claim as stated fails when the data does not pass validation: validation comes
  first, so the call throws a validation error instead of the duplicate-id error.
\<close>

theorem create_duplicate_id_validation_first:
  "get_prop ''id'' (getAll example_store ! 0) = Inr (JStr ''c1'') \<and>
   get_prop ''id'' (JObj [(''id'', JStr ''c1'')]) = Inr (JStr ''c1'') \<and>
   create example_env example_store (JObj [(''id'', JStr ''c1'')]) =
     (Inl (ValidationError ''missing required field: name''), example_store) \<and>
   fst (create example_env example_store (JObj [(''id'', JStr ''c1'')])) \<noteq>
     Inl (DuplicateIdError (JStr ''c1''))"
  by (simp add: example_defs store_defs)

theorem create_duplicate_id_rejected_witness:
  "validateData example_store (JObj [(''name'', JStr ''Copy''), (''id'', JStr ''c1'')]) = Inr () \<and>
   get_prop ''id'' (JObj [(''name'', JStr ''Copy''), (''id'', JStr ''c1'')]) = Inr (JStr ''c1'') \<and>
   example_record \<in> set (data example_store) \<and>
   get_prop ''id'' example_record = Inr (JStr ''c1'') \<and>
   create example_env example_store (JObj [(''name'', JStr ''Copy''), (''id'', JStr ''c1'')]) =
     (Inl (DuplicateIdError (JStr ''c1'')), example_store) \<and>
   count (snd (create example_env example_store (JObj [(''name'', JStr ''Copy''), (''id'', JStr ''c1'')]))) = 1"
proof -
  let ?d = "JObj [(''name'', JStr ''Copy''), (''id'', JStr ''c1'')]"
  have v: "validation example_store \<longrightarrow> validateData example_store ?d = Inr ()"
    by (simp add: example_defs validateData_def)
  have v': "validateData example_store ?d = Inr ()"
    by (simp add: example_defs validateData_def)
  have g: "get_prop ''id'' ?d = Inr (JStr ''c1'')" by simp
  have t: "truthy (JStr ''c1'')" by simp
  have m: "example_record \<in> set (data example_store)" by (simp add: example_store_def)
  have r: "get_prop ''id'' example_record = Inr (JStr ''c1'')" by (simp add: example_record_def)
  have n: "\<forall>x\<in>set (data example_store). x \<noteq> JNull \<and> x \<noteq> JUndefined"
    by (simp add: example_defs)
  have k: "count example_store = 1" by (simp add: count_def example_store_def)
  from create_duplicate_id_rejected[OF v g t m r n, of example_env] v' g m r k
  show ?thesis by simp
qed

subsection \<open>C7: update with an empty partial\<close>




subsection \<open>C8: the reversible encoding\<close>





subsection \<open>C9: one listener, one notification\<close>

text \<open>
  C9. In a store with a single subscribed listener, a \<^verbatim>\<open>create\<close> that returns has called
  that listener exactly once by the time it returns, with the action \<^verbatim>\<open>create\<close>, the
  record it returns and the store's key: the listener calls recorded in the store it leaves
  are those recorded before, followed by that one call.
\<close>

theorem create_notifies_listener_once:
  assumes "listeners st = [l]" and "create e st itemData = (Inr r, st')"
  shows "calls st' = calls st @ [(l, ''create'', r, storageKey st)]"
  using assms
  by (auto simp: create_def Let_def notifyListeners_def dest!: save_fields
           split: sum.splits if_splits)


theorem create_notifies_listener_once_witness:
  "listeners (subscribe 7 (example_store\<lparr>listeners := []\<rparr>)) = [7] \<and>
   fst (create example_env (subscribe 7 (example_store\<lparr>listeners := []\<rparr>)) example_new) =
     Inr (getAll (snd (create example_env (subscribe 7 (example_store\<lparr>listeners := []\<rparr>)) example_new)) ! 1) \<and>
   calls (snd (create example_env (subscribe 7 (example_store\<lparr>listeners := []\<rparr>)) example_new)) =
     [(7, ''create'',
       getAll (snd (create example_env (subscribe 7 (example_store\<lparr>listeners := []\<rparr>)) example_new)) ! 1,
       ''clients'')]"
proof -
  let ?st = "subscribe 7 (example_store\<lparr>listeners := []\<rparr>)"
  let ?C = "create example_env ?st example_new"
  have l: "listeners ?st = [7]" by (simp add: subscribe_def example_store_def)
  have c: "fst ?C = Inr (getAll (snd ?C) ! 1)"
    by (simp add: example_defs store_defs subscribe_def)
  have h: "?C = (Inr (getAll (snd ?C) ! 1), snd ?C)" using c by (metis prod.collapse)
  have k: "calls ?st = []" "storageKey ?st = ''clients''"
    by (simp_all add: subscribe_def example_store_def)
  from create_notifies_listener_once[OF l h] l c k show ?thesis by simp
qed

subsection \<open>C10: update keeps positions\<close>

text \<open>
  C10. After an \<^verbatim>\<open>update\<close> that returns, \<^verbatim>\<open>getAll\<close> has the same length and gives the
  same \<^verbatim>\<open>id\<close>s in the same order as before; the returned record is at one position of the
  sequence and every other position holds the record it held before.
\<close>

theorem update_preserves_positions:
  assumes "update e st i updates = (Inr r, st')"
  shows "length (getAll st') = length (getAll st) \<and>
         map (get_prop ''id'') (getAll st') = map (get_prop ''id'') (getAll st) \<and>
         (\<exists>n<length (getAll st). getAll st' ! n = r \<and>
             (\<forall>j<length (getAll st). j \<noteq> n \<longrightarrow> getAll st' ! j = getAll st ! j))"
proof -
  from update_success[OF assms] obtain n where
    n: "findIndex i (data st) = Inr (Some n)" "data st' = (data st)[n := r]"
    and r: "r = JObj (set_prop ''updatedAt'' (JStr (now e 0))
                        (set_prop ''id'' i (spread (spread [] (data st ! n)) updates)))"
    by blast
  from findIndex_Some[OF n(1)] have lt: "n < length (data st)"
    and idn: "get_prop ''id'' (data st ! n) = Inr i" by auto
  have idr: "get_prop ''id'' r = Inr i"
    unfolding r by (simp add: lookup_set_prop)
  have "map (get_prop ''id'') ((data st)[n := r]) = (map (get_prop ''id'') (data st))[n := get_prop ''id'' r]"
    by (simp add: map_update)
  also have "\<dots> = map (get_prop ''id'') (data st)"
    using idr idn lt by (simp add: list_update_same_conv)
  finally have ids: "map (get_prop ''id'') (data st') = map (get_prop ''id'') (data st)"
    using n(2) by simp
  show ?thesis
    using ids lt n(2) by (auto simp: getAll_def)
qed


theorem update_preserves_positions_witness:
  "fst (update example_env (example_store\<lparr>data := [example_record, example_new]\<rparr>) (JStr ''c2'')
          (JObj [(''name'', JStr ''Beta Ltd'')])) =
     Inr (getAll (snd (update example_env (example_store\<lparr>data := [example_record, example_new]\<rparr>)
                         (JStr ''c2'') (JObj [(''name'', JStr ''Beta Ltd'')]))) ! 1) \<and>
   length (getAll (snd (update example_env (example_store\<lparr>data := [example_record, example_new]\<rparr>)
                         (JStr ''c2'') (JObj [(''name'', JStr ''Beta Ltd'')])))) = 2 \<and>
   map (get_prop ''id'')
     (getAll (snd (update example_env (example_store\<lparr>data := [example_record, example_new]\<rparr>)
                         (JStr ''c2'') (JObj [(''name'', JStr ''Beta Ltd'')])))) =
     [Inr (JStr ''c1''), Inr (JStr ''c2'')]"
proof -
  let ?st = "example_store\<lparr>data := [example_record, example_new]\<rparr>"
  let ?U = "update example_env ?st (JStr ''c2'') (JObj [(''name'', JStr ''Beta Ltd'')])"
  have c: "fst ?U = Inr (getAll (snd ?U) ! 1)"
    by (simp add: example_defs store_defs)
  have h: "?U = (Inr (getAll (snd ?U) ! 1), snd ?U)" using c by (metis prod.collapse)
  have g: "getAll ?st = [example_record, example_new]" by (simp add: getAll_def)
  have i: "map (get_prop ''id'') [example_record, example_new] = [Inr (JStr ''c1''), Inr (JStr ''c2'')]"
    by (simp add: example_defs)
  from update_preserves_positions[OF h] c g i show ?thesis by simp
qed

end
